theory Spec2Isabelle
  imports Complex_Main "HOL-Library.Word" "HOL-Library.Log_Nat" "HOL-Library.Sublist"
begin

unbundle bit_operations_syntax

section \<open>Machine types and build constants (main.c)\<close>

type_synonym u8 = "8 word"
type_synonym u16 = "16 word"
type_synonym u32 = "32 word"

definition PACKET_LEN :: nat where
  "PACKET_LEN = 25"

text \<open>3 BioAmp channels, 1 battery channel.\<close>

definition NUM_CHANNELS :: nat where
  "NUM_CHANNELS = 4"

definition SAMPLE_SIZE :: nat where
  "SAMPLE_SIZE = (NUM_CHANNELS - 1) * 2 + 1"

definition PACKET_SIZE :: nat where
  "PACKET_SIZE = PACKET_LEN * SAMPLE_SIZE"

text \<open>
  Modelled from the spec: \<open>SOC_ADC_DIGI_RESULT_BYTES\<close> and the type
  \<open>adc_digi_output_data_t\<close> come from platform headers that are not part of the
  sources. The spec's conversion frame is "channel count x 25 x platform result width" and
  its Channel Sample is "one 12-bit unsigned value"; on the build target (esp32c6) a
  conversion result is one little-endian 32-bit word whose low 12 bits are the field
  \<open>type2.data\<close>.
\<close>

definition SOC_ADC_DIGI_RESULT_BYTES :: nat where
  "SOC_ADC_DIGI_RESULT_BYTES = 4"

definition CONV_FRAME_SIZE :: nat where
  "CONV_FRAME_SIZE = NUM_CHANNELS * PACKET_LEN * SOC_ADC_DIGI_RESULT_BYTES"

definition result_word :: "u8 list \<Rightarrow> nat \<Rightarrow> u32" where
  "result_word result off =
     ucast (result ! off)
     OR push_bit 8 (ucast (result ! (off + 1)))
     OR push_bit 16 (ucast (result ! (off + 2)))
     OR push_bit 24 (ucast (result ! (off + 3)))"

text \<open>The bit-field read \<open>parsed_data->type2.data\<close>, promoted to \<open>int\<close> as C does.\<close>

definition type2_data :: "u8 list \<Rightarrow> nat \<Rightarrow> int" where
  "type2_data result off = uint (result_word result off AND 0xFFF)"

text \<open>\<open>#define MAP(X) ((X) * 4095 / 3329)\<close>, evaluated in \<open>int\<close>; the operand is never
  negative, so C's truncating division is \<open>div\<close>.\<close>

definition MAP :: "int \<Rightarrow> int" where
  "MAP x = x * 4095 div 3329"

section \<open>Visual indication and the effects of a handler\<close>

datatype color_t = RED | YELLOW | GREEN | CYAN | BLUE | MAGENTA

text \<open>
  Calls into the platform (LED strip, log, wireless host, ADC driver) are recorded in
  the order in which the code makes them.
\<close>

datatype effect =
    Pixel nat color_t nat
  | LogE string
  | LogI string
  | NimblePortStop
  | AdcContinuousStop
  | MbufFromFlat "u8 list"
  | NotifyCustom u16 u16 "u8 list"
  | MbufAppend "u8 list"
  | AdvSetFields
  | AdvStart
  | ConnFind u16
  | ConnUpdateParams u16

definition NUM_NEOPIXEL :: nat where
  "NUM_NEOPIXEL = 6"

text \<open>\<open>set_pixel\<close> (neopixel.c): rejects a pixel index above 5, otherwise drives the strip.
  The strip is an output sink; what reaches it is the triple (pixel, hue, brightness).\<close>

definition set_pixel :: "nat \<Rightarrow> color_t \<Rightarrow> nat \<Rightarrow> effect list" where
  "set_pixel pixel_num color brightness =
     (if pixel_num > NUM_NEOPIXEL - 1
      then [LogE ''Pixel Num should be between 0 to 5 for NPG-LITE!'']
      else [Pixel pixel_num color brightness])"

section \<open>Shared state (gap.c) and the locals of the acquisition task (main.c)\<close>

record npg_state =
  streaming :: bool
  conn_handle :: u16
  data_char_handle :: u16
  control_char_handle :: u16
  counter :: u8
  adc_reading :: u16
  battery_reading :: int
  chords_packet :: "u8 list list"

section \<open>Binary floating point (battery estimator)\<close>

text \<open>
  \<open>battery_check\<close> computes in C \<open>double\<close> and \<open>float\<close>. A floating-point value is
  modelled by the rational number it denotes, and every operation by the exact operation
  followed by rounding to the nearest value with \<open>p\<close> significant bits, ties to even
  (\<open>p = 53\<close> for \<open>double\<close>, \<open>p = 24\<close> for \<open>float\<close>). The exponent range is not
  modelled: no value of the estimator comes near overflow, and its nonzero values are far
  above the subnormal range.
\<close>

definition rne :: "rat \<Rightarrow> int" where
  "rne x =
     (let f = \<lfloor>x\<rfloor>; d = x - of_int f
      in if d < 1 / 2 then f else if 1 / 2 < d then f + 1 else if even f then f else f + 1)"

text \<open>\<open>ilog2 x\<close> is the binary exponent of \<open>x > 0\<close>: \<open>2 ^ ilog2 x \<le> x < 2 ^ (ilog2 x + 1)\<close>.\<close>

definition ilog2 :: "rat \<Rightarrow> int" where
  "ilog2 x =
     (let k = bitlen (fst (quotient_of x)) - bitlen (snd (quotient_of x))
      in if 2 powi k \<le> x then k else k - 1)"

definition fl_round :: "nat \<Rightarrow> rat \<Rightarrow> rat" where
  "fl_round p x =
     (if x = 0 then 0
      else let q = 2 powi (ilog2 \<bar>x\<bar> - int p + 1) in of_int (rne (x / q)) * q)"

definition f32 :: "rat \<Rightarrow> rat" where
  "f32 = fl_round 24"

definition f64 :: "rat \<Rightarrow> rat" where
  "f64 = fl_round 53"

text \<open>A \<open>float\<close> object initialised from a decimal (\<open>double\<close>) literal.\<close>

definition float_lit :: "rat \<Rightarrow> rat" where
  "float_lit x = f32 (f64 x)"

text \<open>The cast \<open>(uint8_t) x\<close> of a floating-point value: the fraction is discarded.\<close>

definition to_u8 :: "rat \<Rightarrow> u8" where
  "to_u8 x = word_of_int \<lfloor>x\<rfloor>"

section \<open>Battery estimator (main.c)\<close>

definition batt_table :: "(rat \<times> u8) list" where
  "batt_table =
     [(float_lit (327 / 100), 0), (float_lit (361 / 100), 5), (float_lit (369 / 100), 10),
      (float_lit (371 / 100), 15), (float_lit (373 / 100), 20), (float_lit (375 / 100), 25),
      (float_lit (377 / 100), 30), (float_lit (379 / 100), 35), (float_lit (380 / 100), 40),
      (float_lit (382 / 100), 45), (float_lit (384 / 100), 50), (float_lit (385 / 100), 55),
      (float_lit (387 / 100), 60), (float_lit (391 / 100), 65), (float_lit (395 / 100), 70),
      (float_lit (398 / 100), 75), (float_lit (402 / 100), 80), (float_lit (408 / 100), 85),
      (float_lit (411 / 100), 90), (float_lit (415 / 100), 95), (float_lit (420 / 100), 100)]"

text \<open>The linear interpolation of one table segment, every operation in \<open>float\<close>:
  \<open>(uint8_t)(p1 + (voltage - v1) * (p2 - p1) / (v2 - v1))\<close>.\<close>

definition interpolate :: "rat \<Rightarrow> rat \<Rightarrow> u8 \<Rightarrow> rat \<Rightarrow> u8 \<Rightarrow> u8" where
  "interpolate voltage v1 p1 v2 p2 =
     to_u8 (f32 (of_int (uint p1)
                 + f32 (f32 (f32 (voltage - v1) * of_int (uint p2 - uint p1)) / f32 (v2 - v1))))"

text \<open>The \<open>for\<close> loop over the segments of the table; it stops at the first segment that
  contains the voltage.\<close>

function batt_loop :: "(rat \<times> u8) list \<Rightarrow> rat \<Rightarrow> nat \<Rightarrow> u8 \<Rightarrow> u8" where
  "batt_loop tbl voltage i percent =
     (if i < length tbl - 1 then
        (if fst (tbl ! i) \<le> voltage \<and> voltage \<le> fst (tbl ! (i + 1))
         then interpolate voltage (fst (tbl ! i)) (snd (tbl ! i))
                (fst (tbl ! (i + 1))) (snd (tbl ! (i + 1)))
         else batt_loop tbl voltage (i + 1) percent)
      else percent)"
  by pat_completeness auto
termination
  by (relation "measure (\<lambda>(tbl, voltage, i, percent). length tbl - 1 - i)") auto

text \<open>Lines 170 to 189 of \<open>battery_check\<close>: the percentage of a voltage.\<close>

definition percent_of_voltage :: "(rat \<times> u8) list \<Rightarrow> rat \<Rightarrow> u8" where
  "percent_of_voltage tbl voltage =
     (if voltage < fst (tbl ! 0) then snd (tbl ! 0)
      else if voltage > fst (tbl ! (length tbl - 1)) then snd (tbl ! (length tbl - 1))
      else batt_loop tbl voltage 0 0)"

text \<open>\<open>float voltage = (battery_reading / 4095.0) * 3.3 - 0.14;\<close> evaluated in \<open>double\<close>
  and stored as \<open>float\<close>.\<close>

definition battery_voltage :: "int \<Rightarrow> rat" where
  "battery_voltage reading =
     f32 (f64 (f64 (f64 (of_int reading / 4095) * f64 (33 / 10)) - f64 (14 / 100)))"

definition battery_percent :: "int \<Rightarrow> u8" where
  "battery_percent reading = percent_of_voltage batt_table (battery_voltage reading)"

definition battery_check :: "int \<Rightarrow> effect list" where
  "battery_check reading =
     (if battery_percent reading < 5
      then set_pixel 5 RED 10
           @ [NimblePortStop, AdcContinuousStop,
              LogE ''Low Battery, please charge device before use'']
      else [])"

section \<open>Acquisition loop (main.c, \<open>adc_conv_task\<close>)\<close>

text \<open>The body of the inner \<open>for\<close> loop: channel \<open>i\<close> of tick \<open>j\<close>. The three BioAmp
  channels are rescaled and stored high byte first; the fourth slot is the battery channel
  and is only accumulated.\<close>

definition conv_channel :: "u8 list \<Rightarrow> nat \<Rightarrow> nat \<Rightarrow> 'a npg_state_scheme \<Rightarrow> 'a npg_state_scheme" where
  "conv_channel result j i s =
     (let off = (i + j * NUM_CHANNELS) * SOC_ADC_DIGI_RESULT_BYTES in
      if i < 3 then
        (let r = (word_of_int (MAP (type2_data result off)) :: u16);
             row1 = (chords_packet s ! j)[1 + i * 2 := ucast (drop_bit 8 r AND 0xFF)];
             row2 = row1[2 + i * 2 := ucast (r AND 0xFF)]
         in s\<lparr>adc_reading := r, chords_packet := (chords_packet s)[j := row2]\<rparr>)
      else
        (let r = (word_of_int (MAP (type2_data result off * 2)) :: u16)
         in s\<lparr>adc_reading := r, battery_reading := battery_reading s + uint r\<rparr>))"

function channel_loop :: "u8 list \<Rightarrow> nat \<Rightarrow> nat \<Rightarrow> 'a npg_state_scheme \<Rightarrow> 'a npg_state_scheme" where
  "channel_loop result j i s =
     (if i < NUM_CHANNELS then channel_loop result j (i + 1) (conv_channel result j i s) else s)"
  by pat_completeness auto
termination
  by (relation "measure (\<lambda>(result, j, i, s). NUM_CHANNELS - i)") auto

text \<open>The body of the outer \<open>for\<close> loop: stamp the counter, increment it, convert the
  channels of the tick.\<close>

definition conv_row :: "u8 list \<Rightarrow> nat \<Rightarrow> 'a npg_state_scheme \<Rightarrow> 'a npg_state_scheme" where
  "conv_row result j s =
     channel_loop result j 0
       (s\<lparr>chords_packet := (chords_packet s)[j := (chords_packet s ! j)[0 := counter s]],
          counter := counter s + 1\<rparr>)"

function row_loop :: "u8 list \<Rightarrow> nat \<Rightarrow> 'a npg_state_scheme \<Rightarrow> 'a npg_state_scheme" where
  "row_loop result j s =
     (if j < PACKET_LEN then row_loop result (j + 1) (conv_row result j s) else s)"
  by pat_completeness auto
termination
  by (relation "measure (\<lambda>(result, j, s). PACKET_LEN - j)") auto

text \<open>What one pass of the streaming loop gets from the platform: the status \<open>ret\<close> and the
  size \<open>size_ret\<close> returned by \<open>adc_continuous_read\<close> with the content of the frame
  buffer \<open>result\<close> after the call,
  whether \<open>ble_hs_mbuf_from_flat\<close> returned a buffer, and the return code of
  \<open>ble_gatts_notify_custom\<close>.\<close>

record conv_read =
  read_ret :: int
  read_size_ret :: u32
  read_result :: "u8 list"
  om_ok :: bool
  notify_rc :: int

definition ESP_OK :: int where
  "ESP_OK = 0"

text \<open>The bytes that \<open>ble_hs_mbuf_from_flat((void *)chords_packet, PACKET_SIZE)\<close> takes
  from the row array.\<close>

definition packet_bytes :: "'a npg_state_scheme \<Rightarrow> u8 list" where
  "packet_bytes s = take PACKET_SIZE (concat (chords_packet s))"

text \<open>The notification of a flat buffer, as both the acquisition loop and the command
  handler do it: nothing is sent when no buffer could be allocated, and a failed
  notification is only logged.\<close>

definition notify_flat :: "u16 \<Rightarrow> u16 \<Rightarrow> u8 list \<Rightarrow> bool \<Rightarrow> int \<Rightarrow> string \<Rightarrow> effect list" where
  "notify_flat ch attr bytes ok rc msg =
     MbufFromFlat bytes
     # (if ok then NotifyCustom ch attr bytes # (if rc \<noteq> 0 then [LogE msg] else []) else [])"

text \<open>One pass of the body of \<open>while (streaming)\<close>, after the task has been woken.\<close>

definition adc_cycle :: "conv_read \<Rightarrow> npg_state \<Rightarrow> npg_state \<times> effect list" where
  "adc_cycle c s =
     (if read_ret c = ESP_OK \<and> unat (read_size_ret c) = CONV_FRAME_SIZE then
        (let s1 = row_loop (read_result c) 0 (s\<lparr>battery_reading := 0\<rparr>);
             s2 = s1\<lparr>battery_reading := battery_reading s1 div int PACKET_LEN\<rparr>
         in (s2,
             battery_check (battery_reading s2)
             @ notify_flat (conn_handle s2) (data_char_handle s2) (packet_bytes s2)
                 (om_ok c) (notify_rc c) ''Notification failed''))
      else (s, [LogE ''Corrupted reading from adc'']))"

text \<open>The row array has \<open>PACKET_LEN\<close> rows of \<open>SAMPLE_SIZE\<close> bytes, the frame buffer
  \<open>CONV_FRAME_SIZE\<close> bytes: the shapes that the C array types fix.\<close>

definition packet_shape :: "'a npg_state_scheme \<Rightarrow> bool" where
  "packet_shape s \<longleftrightarrow>
     length (chords_packet s) = PACKET_LEN \<and> list_all (\<lambda>row. length row = SAMPLE_SIZE) (chords_packet s)"

definition scaled :: "u8 list \<Rightarrow> nat \<Rightarrow> nat \<Rightarrow> u16" where
  "scaled result j i =
     word_of_int (MAP (type2_data result ((i + j * NUM_CHANNELS) * SOC_ADC_DIGI_RESULT_BYTES)))"

definition battery_scaled :: "u8 list \<Rightarrow> nat \<Rightarrow> u16" where
  "battery_scaled result j =
     word_of_int (MAP (type2_data result ((3 + j * NUM_CHANNELS) * SOC_ADC_DIGI_RESULT_BYTES) * 2))"

definition hi_byte :: "u16 \<Rightarrow> u8" where
  "hi_byte r = ucast (drop_bit 8 r AND 0xFF)"

definition lo_byte :: "u16 \<Rightarrow> u8" where
  "lo_byte r = ucast (r AND 0xFF)"

definition sample_row :: "u8 list \<Rightarrow> nat \<Rightarrow> u8 \<Rightarrow> u8 list" where
  "sample_row result j c =
     [c, hi_byte (scaled result j 0), lo_byte (scaled result j 0),
         hi_byte (scaled result j 1), lo_byte (scaled result j 1),
         hi_byte (scaled result j 2), lo_byte (scaled result j 2)]"

section \<open>Command processor (gatt.c, \<open>gatt_svr_chr_access_cb\<close>)\<close>

text \<open>An access to an array element outside the array is undefined behaviour in C; the
  model stops there with the offending index.\<close>

datatype fault = OutOfBounds nat

text \<open>\<open>toupper\<close> of the C library in the "C" locale.\<close>

definition toupper :: "char \<Rightarrow> char" where
  "toupper c =
     (if 97 \<le> (of_char c :: nat) \<and> (of_char c :: nat) \<le> 122
      then char_of ((of_char c :: nat) - 32) else c)"

definition NUL :: char where
  "NUL = CHR 0x00"

text \<open>The uppercasing loop \<open>for (i = 0; i < om_len; i++) cmd_buffer[i] =
  toupper(cmd_buffer[i])\<close>: its bound is the length of the payload, not of the buffer.\<close>

function upper_loop :: "nat \<Rightarrow> nat \<Rightarrow> string \<Rightarrow> fault + string" where
  "upper_loop om_len i cmd_buffer =
     (if i < om_len then
        (if i < length cmd_buffer
         then upper_loop om_len (i + 1) (cmd_buffer[i := toupper (cmd_buffer ! i)])
         else Inl (OutOfBounds i))
      else Inr cmd_buffer)"
  by pat_completeness auto
termination
  by (relation "measure (\<lambda>(om_len, i, cmd_buffer). om_len - i)") auto

declare upper_loop.simps [simp del]

text \<open>\<open>strncmp\<close> on character arrays: at most \<open>n\<close> characters are compared and the
  comparison stops after a NUL. A string literal is passed with its terminating NUL. The
  last equation also ends the comparison of an exhausted array; no call of the handler gets
  there, since the buffer has 20 characters and \<open>n\<close> is at most 6.\<close>

fun strncmp :: "string \<Rightarrow> string \<Rightarrow> nat \<Rightarrow> int" where
  "strncmp (a # s1) (b # s2) (Suc n) =
     (if a \<noteq> b then int (of_char a) - int (of_char b)
      else if a = NUL then 0 else strncmp s1 s2 n)"
| "strncmp s1 s2 n = 0"

definition c_str :: "string \<Rightarrow> string" where
  "c_str lit = lit @ [NUL]"

definition bytes_of :: "string \<Rightarrow> u8 list" where
  "bytes_of str = map (\<lambda>c. of_nat (of_char c)) str"

datatype access_op = WRITE_CHR | READ_CHR | OTHER_OP

text \<open>An access to a characteristic: the operation, the payload \<open>om_data\<close> (its length
  is \<open>om_len\<close>), and what the wireless host answers to the calls of the handler.\<close>

record gatt_access =
  gatt_op :: access_op
  om_data :: string
  resp_om_ok :: bool
  resp_notify_rc :: int
  append_rc :: int

text \<open>The chain of \<open>strncmp\<close> tests: the new state, the calls made, and the response.\<close>

definition command_reply :: "string \<Rightarrow> npg_state \<Rightarrow> npg_state \<times> effect list \<times> string" where
  "command_reply cmd_buffer s =
     (if strncmp cmd_buffer (c_str ''START'') 5 = 0 then
        (s\<lparr>streaming := True\<rparr>,
         set_pixel 0 BLUE 10 @ [LogI ''Command: START received, streaming started.''],
         ''RUNNING'')
      else if strncmp cmd_buffer (c_str ''STOP'') 4 = 0 then
        (s\<lparr>streaming := False\<rparr>,
         set_pixel 0 GREEN 10 @ [LogI ''Command: STOP received, streaming stopped.''],
         ''STOPPED'')
      else if strncmp cmd_buffer (c_str ''WHORU'') 5 = 0 then
        (s, [LogI ''Command: WHORU received.''], ''NPG-LITE'')
      else if strncmp cmd_buffer (c_str ''STATUS'') 6 = 0 then
        (s, [LogI ''Command: STATUS received.''],
         if streaming s then ''RUNNING'' else ''STOPPED'')
      else (s, [], ''UNKNOWN COMMAND''))"

text \<open>The handler. Its parameter \<open>conn_handle\<close> (here \<open>ch\<close>) hides the global of the
  same name. A write copies at most 19 bytes into the zeroed 20-byte \<open>cmd_buffer\<close>,
  uppercases and terminates it, decodes it and notifies the response; a read of the control
  characteristic appends the status.\<close>

definition gatt_svr_chr_access_cb ::
    "u16 \<Rightarrow> u16 \<Rightarrow> gatt_access \<Rightarrow> npg_state \<Rightarrow> fault + (npg_state \<times> effect list \<times> int)" where
  "gatt_svr_chr_access_cb ch attr_handle ctxt s =
     (case gatt_op ctxt of
        WRITE_CHR \<Rightarrow>
          (let om_len = length (om_data ctxt);
               copy_len = (if om_len < 19 then om_len else 19);
               copied = take copy_len (om_data ctxt) @ replicate (20 - copy_len) NUL
           in case upper_loop om_len 0 copied of
                Inl f \<Rightarrow> Inl f
              | Inr upper \<Rightarrow>
                  if om_len < length upper then
                    (case command_reply (upper[om_len := NUL]) s of
                       (s', es, response) \<Rightarrow>
                         Inr (s',
                              es @ notify_flat ch attr_handle (bytes_of response)
                                     (resp_om_ok ctxt) (resp_notify_rc ctxt)
                                     ''Failed to notify control response'',
                              0))
                  else Inl (OutOfBounds om_len))
      | READ_CHR \<Rightarrow>
          (if attr_handle = control_char_handle s
           then Inr (s, [MbufAppend (bytes_of (if streaming s then ''RUNNING'' else ''STOPPED''))],
                     append_rc ctxt)
           else Inr (s, [], 0))
      | OTHER_OP \<Rightarrow> Inr (s, [], 0))"

section \<open>Connection lifecycle (gap.c, \<open>gap_event_handler\<close>)\<close>

datatype gap_event =
    CONNECT int u16
  | DISCONNECT int
  | ADV_COMPLETE
  | SUBSCRIBE u16
  | MTU
  | OTHER_EVENT

text \<open>The return codes of the calls that the handler makes into the wireless host.\<close>

record host_rc =
  conn_find_rc :: int
  update_params_rc :: int
  adv_set_fields_rc :: int
  adv_start_rc :: int

definition start_advertising :: "host_rc \<Rightarrow> effect list" where
  "start_advertising h =
     AdvSetFields
     # (if adv_set_fields_rc h \<noteq> 0 then [LogE ''Error setting advertising data'']
        else AdvStart
             # (if adv_start_rc h \<noteq> 0 then [LogE ''Error starting advertising'']
                else [LogI ''BLE Advertising started'']))"

definition gap_event_handler :: "gap_event \<Rightarrow> host_rc \<Rightarrow> npg_state \<Rightarrow> npg_state \<times> effect list \<times> int" where
  "gap_event_handler event h s =
     (case event of
        CONNECT status new_handle \<Rightarrow>
          (if status = 0 then
             (if conn_find_rc h \<noteq> 0 then
                (s, [LogI ''Connection established'', ConnFind new_handle,
                     LogE ''failed to find connection by handle''],
                 conn_find_rc h)
              else
                (s\<lparr>conn_handle := new_handle\<rparr>,
                 [LogI ''Connection established'', ConnFind new_handle]
                 @ set_pixel 0 GREEN 10
                 @ [LogI ''connection description'', ConnUpdateParams new_handle]
                 @ (if update_params_rc h \<noteq> 0
                    then [LogE ''failed to update connection parameters''] else []),
                 update_params_rc h))
           else (s, LogI ''Connection established'' # start_advertising h, 0))
      | DISCONNECT reason \<Rightarrow>
          (s\<lparr>streaming := False\<rparr>,
           set_pixel 0 RED 10 @ [LogI ''Disconnected''] @ start_advertising h, 0)
      | ADV_COMPLETE \<Rightarrow> (s, LogI ''Advertise complete'' # start_advertising h, 0)
      | SUBSCRIBE attr_handle \<Rightarrow>
          (s,
           (if attr_handle = data_char_handle s then [LogI ''Data Characteristic Subscribe''] else [])
           @ (if attr_handle = control_char_handle s
              then [LogI ''Control Characteristic Subscribe''] else []),
           0)
      | MTU \<Rightarrow> (s, [LogI ''MTU updated''], 0)
      | OTHER_EVENT \<Rightarrow> (s, [], 0))"

section \<open>The two activities together\<close>

text \<open>
  The device runs the acquisition task and the wireless host's event task. A step of the
  system is one pass of the streaming loop's body, one GAP event or one characteristic
  access. The pass is not guarded by the streaming flag here: the task tests the flag before
  it blocks, so any interleaving of passes and events that the device can show is a run of
  this model.
\<close>

datatype event =
    ConvCycle conv_read
  | GapEvent gap_event host_rc
  | GattAccess u16 u16 gatt_access

definition step :: "event \<Rightarrow> npg_state \<Rightarrow> fault + (npg_state \<times> effect list)" where
  "step e s =
     (case e of
        ConvCycle c \<Rightarrow> Inr (adc_cycle c s)
      | GapEvent g h \<Rightarrow> (case gap_event_handler g h s of (s', es, rc) \<Rightarrow> Inr (s', es))
      | GattAccess ch attr ctxt \<Rightarrow>
          (case gatt_svr_chr_access_cb ch attr ctxt s of
             Inl f \<Rightarrow> Inl f
           | Inr (s', es, rc) \<Rightarrow> Inr (s', es)))"

fun run :: "event list \<Rightarrow> npg_state \<Rightarrow> fault + (npg_state \<times> effect list)" where
  "run [] s = Inr (s, [])"
| "run (e # evs) s =
     (case step e s of
        Inl f \<Rightarrow> Inl f
      | Inr (s1, es1) \<Rightarrow>
          (case run evs s1 of Inl f \<Rightarrow> Inl f | Inr (s2, es2) \<Rightarrow> Inr (s2, es1 @ es2)))"

text \<open>The data packets of a run, in order: what the passes of the streaming loop hand to
  \<open>ble_hs_mbuf_from_flat\<close>; and the sequence bytes of a packet, one per row.\<close>

fun flat_buffers :: "effect list \<Rightarrow> u8 list list" where
  "flat_buffers [] = []"
| "flat_buffers (MbufFromFlat bytes # es) = bytes # flat_buffers es"
| "flat_buffers (e # es) = flat_buffers es"

fun packets :: "event list \<Rightarrow> npg_state \<Rightarrow> u8 list list" where
  "packets [] s = []"
| "packets (e # evs) s =
     (case step e s of
        Inl f \<Rightarrow> []
      | Inr (s1, es1) \<Rightarrow>
          (case e of ConvCycle c \<Rightarrow> flat_buffers es1 | _ \<Rightarrow> []) @ packets evs s1)"

definition sequence_bytes :: "u8 list \<Rightarrow> u8 list" where
  "sequence_bytes packet = map (\<lambda>j. packet ! (j * SAMPLE_SIZE)) [0..<PACKET_LEN]"




section \<open>The packet that a conversion frame yields\<close>

declare channel_loop.simps [simp del] row_loop.simps [simp del]

text \<open>The rescaled code of channel \<open>i\<close> at tick \<open>j\<close>, as it is held in
  \<open>adc_reading\<close>, the two bytes stored for it, and the row that the loops leave in
  \<open>chords_packet[j]\<close>.\<close>

lemma list7: "length xs = 7 \<Longrightarrow> \<exists>a b c d e f g. xs = [a, b, c, d, e, f, g]"
  by (cases xs; simp; (rename_tac x1 xs1, case_tac xs1; simp)?; (rename_tac x2 xs2, case_tac xs2; simp)?;
      (rename_tac x3 xs3, case_tac xs3; simp)?; (rename_tac x4 xs4, case_tac xs4; simp)?; 
      (rename_tac x5 xs5, case_tac xs5; simp)?; (rename_tac x6 xs6, case_tac xs6; simp)?)

lemma channel_loop_unroll:
  "channel_loop result j 0 s =
     conv_channel result j 3 (conv_channel result j 2 (conv_channel result j 1 (conv_channel result j 0 s)))"
  by (simp add: channel_loop.simps NUM_CHANNELS_def eval_nat_numeral)

lemma conv_channel_bio:
  "i < 3 \<Longrightarrow> conv_channel result j i s =
     s\<lparr>adc_reading := scaled result j i,
        chords_packet := (chords_packet s)
          [j := (chords_packet s ! j)[1 + i * 2 := hi_byte (scaled result j i),
                                       2 + i * 2 := lo_byte (scaled result j i)]]\<rparr>"
  by (simp add: conv_channel_def Let_def scaled_def hi_byte_def lo_byte_def)

lemma conv_channel_battery:
  "conv_channel result j 3 s =
     s\<lparr>adc_reading := battery_scaled result j,
        battery_reading := battery_reading s + uint (battery_scaled result j)\<rparr>"
  by (simp add: conv_channel_def Let_def battery_scaled_def)

lemma conv_row_eq:
  assumes "j < length (chords_packet s)" "length (chords_packet s ! j) = 7"
  shows "conv_row result j s =
     s\<lparr>chords_packet := (chords_packet s)[j := sample_row result j (counter s)],
        counter := counter s + 1,
        adc_reading := battery_scaled result j,
        battery_reading := battery_reading s + uint (battery_scaled result j)\<rparr>"
proof -
  obtain a b c d e f g where row: "chords_packet s ! j = [a, b, c, d, e, f, g]"
    using list7 [OF assms(2)] by blast
  show ?thesis
    using assms(1)
    apply (simp add: conv_row_def channel_loop_unroll)
    apply (simp add: conv_channel_bio)
    apply (simp add: conv_channel_battery)
    apply (simp add: row sample_row_def)
    done
qed


lemma conv_row_shape:
  assumes "packet_shape s" "j < PACKET_LEN"
  shows "conv_row frame j s =
     s\<lparr>chords_packet := (chords_packet s)[j := sample_row frame j (counter s)],
        counter := counter s + 1,
        adc_reading := battery_scaled frame j,
        battery_reading := battery_reading s + uint (battery_scaled frame j)\<rparr>"
  using assms
  by (intro conv_row_eq) (simp_all add: packet_shape_def list_all_length SAMPLE_SIZE_def NUM_CHANNELS_def)

lemma packet_shape_conv_row:
  assumes "packet_shape s" "j < PACKET_LEN"
  shows "packet_shape (conv_row frame j s)"
  using assms
  by (auto simp add: conv_row_shape packet_shape_def list_all_length nth_list_update
      sample_row_def SAMPLE_SIZE_def NUM_CHANNELS_def)

definition rows_from :: "u8 list \<Rightarrow> nat \<Rightarrow> u8 \<Rightarrow> u8 list list" where
  "rows_from frame j c = map (\<lambda>k. sample_row frame k (c + of_nat (k - j))) [j..<PACKET_LEN]"

lemma rows_from_step:
  "j < PACKET_LEN \<Longrightarrow> rows_from frame j c = sample_row frame j c # rows_from frame (j + 1) (c + 1)"
  by (simp add: rows_from_def upt_conv_Cons Suc_diff_le)

lemma row_loop_eq:
  "packet_shape s \<Longrightarrow> j \<le> PACKET_LEN \<Longrightarrow>
   row_loop frame j s =
     s\<lparr>chords_packet := take j (chords_packet s) @ rows_from frame j (counter s),
        counter := counter s + of_nat (PACKET_LEN - j),
        adc_reading := (if j < PACKET_LEN then battery_scaled frame (PACKET_LEN - 1) else adc_reading s),
        battery_reading := battery_reading s + (\<Sum>k\<leftarrow>[j..<PACKET_LEN]. uint (battery_scaled frame k))\<rparr>"
proof (induction frame j s rule: row_loop.induct)
  case (1 frame j s)
  show ?case
  proof (cases "j < PACKET_LEN")
    case False
    with "1.prems" have j: "j = PACKET_LEN" by simp
    have "row_loop frame j s = s"
      using False by (simp add: row_loop.simps [of frame j s])
    with "1.prems" j show ?thesis
      by (simp add: rows_from_def packet_shape_def)
  next
    case True
    have sh: "packet_shape (conv_row frame j s)"
      using "1.prems" True by (simp add: packet_shape_conv_row)
    have len: "j < length (chords_packet s)"
      using "1.prems" True by (simp add: packet_shape_def)
    have tk: "take (Suc j) ((chords_packet s)[j := r]) = take j (chords_packet s) @ [r]" for r
      using len by (simp add: take_Suc_conv_app_nth)
    have sm: "(\<Sum>k\<leftarrow>[j..<PACKET_LEN]. uint (battery_scaled frame k)) =
        uint (battery_scaled frame j) + (\<Sum>k\<leftarrow>[j + 1..<PACKET_LEN]. uint (battery_scaled frame k))"
      using True by (simp add: upt_conv_Cons)
    have "row_loop frame j s = row_loop frame (j + 1) (conv_row frame j s)"
      using True by (simp add: row_loop.simps [of frame j s])
    also have "\<dots> = (conv_row frame j s)
        \<lparr>chords_packet := take (j + 1) (chords_packet (conv_row frame j s))
            @ rows_from frame (j + 1) (counter (conv_row frame j s)),
         counter := counter (conv_row frame j s) + of_nat (PACKET_LEN - (j + 1)),
         adc_reading := (if j + 1 < PACKET_LEN then battery_scaled frame (PACKET_LEN - 1)
                         else adc_reading (conv_row frame j s)),
         battery_reading := battery_reading (conv_row frame j s)
            + (\<Sum>k\<leftarrow>[j + 1..<PACKET_LEN]. uint (battery_scaled frame k))\<rparr>"
      using "1.IH" [OF True sh] True by simp
    also have "\<dots> = s\<lparr>chords_packet := take j (chords_packet s) @ rows_from frame j (counter s),
        counter := counter s + of_nat (PACKET_LEN - j),
        adc_reading := (if j < PACKET_LEN then battery_scaled frame (PACKET_LEN - 1) else adc_reading s),
        battery_reading := battery_reading s + (\<Sum>k\<leftarrow>[j..<PACKET_LEN]. uint (battery_scaled frame k))\<rparr>"
    proof -
      have last: "j = PACKET_LEN - 1" if "\<not> Suc j < PACKET_LEN"
        using that True by simp
      have adc: "battery_scaled frame (PACKET_LEN - Suc 0) = battery_scaled frame j"
        if "\<not> Suc j < PACKET_LEN"
        using last [OF that] by simp
      from True "1.prems" show ?thesis
        by (simp add: conv_row_shape tk sm rows_from_step [OF True] Suc_diff_Suc adc)
    qed
    finally show ?thesis .
  qed
qed

lemma type2_data_range: "0 \<le> type2_data result off \<and> type2_data result off < 4096"
proof -
  have "result_word result off AND 0xFFF \<le> 0xFFF"
    by (rule word_and_le1)
  then have "uint (result_word result off AND 0xFFF) \<le> uint (0xFFF :: u32)"
    by (simp add: word_le_def)
  then show ?thesis
    by (simp add: type2_data_def)
qed

lemma MAP_range: "0 \<le> x \<Longrightarrow> x < 4096 \<Longrightarrow> 0 \<le> MAP x \<and> MAP x < 65536"
proof -
  assume a: "0 \<le> x" "x < 4096"
  have "x * 4095 div 3329 \<le> 4095 * 4095 div 3329"
    using a by (intro zdiv_mono1) simp_all
  moreover have "0 \<le> x * 4095 div 3329"
    using a by (simp add: pos_imp_zdiv_nonneg_iff)
  ultimately show ?thesis
    by (simp add: MAP_def)
qed

lemma unat_lo_byte: "unat (lo_byte r) = unat r mod 256"
proof -
  have "r AND 0xFF = take_bit 8 r"
    by (simp add: take_bit_eq_mask mask_eq_exp_minus_1)
  then show ?thesis
    by (simp add: lo_byte_def unsigned_ucast_eq unsigned_take_bit_eq take_bit_eq_mod unat_mod)
qed

lemma unat_hi_byte: "unat (hi_byte r) = unat r div 256"
proof -
  have "drop_bit 8 r AND 0xFF = take_bit 8 (drop_bit 8 r)"
    by (simp add: take_bit_eq_mask mask_eq_exp_minus_1)
  moreover have "unat r div 256 < 256"
    using unsigned_less [of r, where 'a = nat] by simp
  ultimately show ?thesis
    by (simp add: hi_byte_def unsigned_ucast_eq unsigned_take_bit_eq take_bit_eq_mod
        unat_drop_bit_eq drop_bit_eq_div unat_mod unat_div)
qed

lemma hi_lo_value: "unat (hi_byte r) * 256 + unat (lo_byte r) = unat r"
  by (simp add: unat_lo_byte unat_hi_byte)

lemma unat_scaled:
  "unat (scaled result j i) =
     nat (type2_data result ((i + j * NUM_CHANNELS) * SOC_ADC_DIGI_RESULT_BYTES)) * 4095 div 3329"
proof -
  let ?x = "type2_data result ((i + j * NUM_CHANNELS) * SOC_ADC_DIGI_RESULT_BYTES)"
  have x: "0 \<le> ?x" "?x < 4096"
    using type2_data_range by simp_all
  have m: "0 \<le> MAP ?x" "MAP ?x < 65536"
    using MAP_range [OF x] by simp_all
  have "unat (scaled result j i) = nat (MAP ?x mod 65536)"
    by (simp add: scaled_def unat_eq_nat_uint uint_word_of_int)
  also have "\<dots> = nat (MAP ?x)"
    using m by simp
  also have "\<dots> = nat ?x * 4095 div 3329"
    using x by (simp add: MAP_def nat_div_distrib nat_mult_distrib)
  finally show ?thesis .
qed

lemma length_sample_row: "length (sample_row frame j c) = 7"
  by (simp add: sample_row_def)

lemma length_rows_from: "length (rows_from frame j c) = PACKET_LEN - j"
  by (simp add: rows_from_def)

lemma nth_rows_from:
  "k < PACKET_LEN - j \<Longrightarrow> rows_from frame j c ! k = sample_row frame (j + k) (c + of_nat k)"
  by (simp add: rows_from_def)

lemma length_concat_rows: "length (concat (rows_from frame j c)) = 7 * (PACKET_LEN - j)"
proof -
  have "map length (rows_from frame j c) = replicate (PACKET_LEN - j) 7"
    by (simp add: rows_from_def length_sample_row comp_def map_replicate_const)
  then show ?thesis
    by (simp add: length_concat sum_list_replicate)
qed

definition battery_mean :: "u8 list \<Rightarrow> int" where
  "battery_mean frame = (\<Sum>k\<leftarrow>[0..<PACKET_LEN]. uint (battery_scaled frame k)) div int PACKET_LEN"

lemma adc_cycle_valid:
  assumes "read_ret c = ESP_OK" and "unat (read_size_ret c) = CONV_FRAME_SIZE" and "packet_shape s"
  shows "adc_cycle c s =
     (s\<lparr>chords_packet := rows_from (read_result c) 0 (counter s),
         counter := counter s + of_nat PACKET_LEN,
         adc_reading := battery_scaled (read_result c) (PACKET_LEN - 1),
         battery_reading := battery_mean (read_result c)\<rparr>,
      battery_check (battery_mean (read_result c))
      @ notify_flat (conn_handle s) (data_char_handle s)
          (concat (rows_from (read_result c) 0 (counter s))) (om_ok c) (notify_rc c)
          ''Notification failed'')"
proof -
  have sh: "packet_shape (s\<lparr>battery_reading := 0\<rparr>)"
    using assms(3) by (simp add: packet_shape_def)
  have pk: "take PACKET_SIZE (concat (rows_from (read_result c) 0 (counter s)))
      = concat (rows_from (read_result c) 0 (counter s))"
    by (simp add: length_concat_rows PACKET_SIZE_def SAMPLE_SIZE_def NUM_CHANNELS_def)
  show ?thesis
    using assms(1,2)
    by (simp add: adc_cycle_def Let_def row_loop_eq [OF sh] packet_bytes_def pk battery_mean_def
        PACKET_LEN_def)
qed

lemma adc_cycle_skip:
  assumes "read_ret c \<noteq> ESP_OK \<or> unat (read_size_ret c) \<noteq> CONV_FRAME_SIZE"
  shows "adc_cycle c s = (s, [LogE ''Corrupted reading from adc''])"
  using assms by (auto simp add: adc_cycle_def)

text \<open>
  Claim C1. For every correctly sized conversion frame, one pass of the streaming loop
  leaves 25 rows of 7 bytes in the row array. Row \<open>j\<close> starts with the rolling counter
  (the counter before the pass plus \<open>j\<close>, modulo 256), and each of its three channel
  values, read high byte first, is \<open>raw * 4095 / 3329\<close> clamped to 16 bits, where
  \<open>raw\<close> is the 12-bit code of the frame for that channel and tick. The 175 bytes of
  the rows are what is handed to \<open>ble_hs_mbuf_from_flat\<close> and, when a buffer is
  returned, to \<open>ble_gatts_notify_custom\<close> on the data characteristic.
\<close>

theorem sample_encoder_packet:
  assumes "read_ret c = ESP_OK" and "unat (read_size_ret c) = CONV_FRAME_SIZE"
    and "length (read_result c) = CONV_FRAME_SIZE" and "packet_shape s"
  shows "case adc_cycle c s of (s', es) \<Rightarrow>
     length (chords_packet s') = 25 \<and>
     (\<forall>j<25. length (chords_packet s' ! j) = 7
        \<and> unat (chords_packet s' ! j ! 0) = (unat (counter s) + j) mod 256
        \<and> (\<forall>i<3. unat (chords_packet s' ! j ! (1 + i * 2)) * 256
                    + unat (chords_packet s' ! j ! (2 + i * 2))
                  = min (nat (type2_data (read_result c)
                           ((i + j * NUM_CHANNELS) * SOC_ADC_DIGI_RESULT_BYTES)) * 4095 div 3329)
                      65535)) \<and>
     packet_bytes s' = concat (chords_packet s') \<and> length (packet_bytes s') = 175 \<and>
     MbufFromFlat (packet_bytes s') \<in> set es \<and>
     (om_ok c \<longrightarrow> NotifyCustom (conn_handle s) (data_char_handle s) (packet_bytes s') \<in> set es)"
proof -
  let ?f = "read_result c"
  let ?rows = "rows_from ?f 0 (counter s)"
  have row: "?rows ! j = sample_row ?f j (counter s + of_nat j)" if "j < 25" for j
    using that nth_rows_from [of j 0 ?f "counter s"] by (simp add: PACKET_LEN_def)
  have seq: "unat (counter s + of_nat j) = (unat (counter s) + j) mod 256" for j
    by (simp add: unat_word_ariths unat_of_nat mod_add_right_eq)
  have small: "nat (type2_data ?f off) * 4095 div 3329 \<le> 65535" for off
  proof -
    have "nat (type2_data ?f off) \<le> 4095"
      using type2_data_range [of ?f off] by linarith
    then have "nat (type2_data ?f off) * 4095 div 3329 \<le> 4095 * 4095 div 3329"
      by (intro div_le_mono mult_le_mono1)
    then show ?thesis by simp
  qed
  have chan: "unat (sample_row ?f j c' ! Suc (i * 2)) * 256 + unat (sample_row ?f j c' ! Suc (Suc (i * 2)))
      = min (nat (type2_data ?f ((i + j * NUM_CHANNELS) * SOC_ADC_DIGI_RESULT_BYTES)) * 4095 div 3329) 65535"
    if "i < 3" for i j c'
  proof -
    from that consider "i = 0" | "i = 1" | "i = 2" by linarith
    then have "unat (sample_row ?f j c' ! Suc (i * 2)) * 256 + unat (sample_row ?f j c' ! Suc (Suc (i * 2)))
        = unat (scaled ?f j i)"
      by cases (simp_all add: sample_row_def hi_lo_value)
    then show ?thesis
      using small by (simp add: unat_scaled min_absorb1)
  qed
  have hd: "sample_row ?f j c' ! 0 = c'" for j c'
    by (simp add: sample_row_def)
  have pk: "take PACKET_SIZE (concat ?rows) = concat ?rows"
    by (simp add: length_concat_rows PACKET_SIZE_def SAMPLE_SIZE_def NUM_CHANNELS_def)
  show ?thesis
    unfolding adc_cycle_valid [OF assms(1,2,4)]
    by (simp add: row seq chan hd length_rows_from length_sample_row length_concat_rows
        packet_bytes_def pk notify_flat_def PACKET_LEN_def PACKET_SIZE_def SAMPLE_SIZE_def
        NUM_CHANNELS_def)
qed

text \<open>Example inputs: a streaming device whose counter is about to wrap, and a frame in
  which every conversion result has all bits set (raw code 4095).\<close>

definition demo_state :: npg_state where
  "demo_state =
     \<lparr>streaming = True, conn_handle = 1, data_char_handle = 12, control_char_handle = 15,
      counter = 250, adc_reading = 0, battery_reading = 0,
      chords_packet = replicate 25 (replicate 7 0)\<rparr>"

definition full_scale_read :: conv_read where
  "full_scale_read =
     \<lparr>read_ret = 0, read_size_ret = 400, read_result = replicate 400 0xFF,
      om_ok = True, notify_rc = 0\<rparr>"

lemma full_scale_raw: "k < 100 \<Longrightarrow> type2_data (replicate 400 0xFF) (k * 4) = 4095"
  by (simp add: type2_data_def result_word_def)

theorem sample_encoder_packet_witness:
  "read_ret full_scale_read = ESP_OK \<and> unat (read_size_ret full_scale_read) = CONV_FRAME_SIZE \<and>
   length (read_result full_scale_read) = CONV_FRAME_SIZE \<and> packet_shape demo_state \<and>
   (case adc_cycle full_scale_read demo_state of (s', es) \<Rightarrow>
      length (chords_packet s') = 25 \<and> length (chords_packet s' ! 6) = 7 \<and>
      unat (chords_packet s' ! 6 ! 0) = 0 \<and>
      unat (chords_packet s' ! 6 ! 3) * 256 + unat (chords_packet s' ! 6 ! 4) = 5037 \<and>
      length (packet_bytes s') = 175 \<and> NotifyCustom 1 12 (packet_bytes s') \<in> set es)"
proof -
  have h1: "read_ret full_scale_read = ESP_OK"
    and h2: "unat (read_size_ret full_scale_read) = CONV_FRAME_SIZE"
    and h3: "length (read_result full_scale_read) = CONV_FRAME_SIZE"
    by (simp_all add: full_scale_read_def ESP_OK_def CONV_FRAME_SIZE_def NUM_CHANNELS_def
        PACKET_LEN_def SOC_ADC_DIGI_RESULT_BYTES_def)
  have h4: "packet_shape demo_state"
    by (simp add: demo_state_def packet_shape_def PACKET_LEN_def SAMPLE_SIZE_def NUM_CHANNELS_def
        list_all_length)
  obtain s' es where eq: "adc_cycle full_scale_read demo_state = (s', es)"
    by (cases "adc_cycle full_scale_read demo_state")
  note t = sample_encoder_packet [OF h1 h2 h3 h4, unfolded eq prod.case]
  from t have rows: "\<forall>j<25. length (chords_packet s' ! j) = 7
        \<and> unat (chords_packet s' ! j ! 0) = (unat (counter demo_state) + j) mod 256
        \<and> (\<forall>i<3. unat (chords_packet s' ! j ! (1 + i * 2)) * 256
                    + unat (chords_packet s' ! j ! (2 + i * 2))
                  = min (nat (type2_data (read_result full_scale_read)
                           ((i + j * NUM_CHANNELS) * SOC_ADC_DIGI_RESULT_BYTES)) * 4095 div 3329)
                      65535)"
    by blast
  have r6: "length (chords_packet s' ! 6) = 7"
    and c6: "unat (chords_packet s' ! 6 ! 0) = (unat (counter demo_state) + 6) mod 256"
    and v6: "\<forall>i<3. unat (chords_packet s' ! 6 ! (1 + i * 2)) * 256
                    + unat (chords_packet s' ! 6 ! (2 + i * 2))
                  = min (nat (type2_data (read_result full_scale_read)
                           ((i + 6 * NUM_CHANNELS) * SOC_ADC_DIGI_RESULT_BYTES)) * 4095 div 3329)
                      65535"
    using rows [rule_format, of 6] by simp_all
  have raw: "type2_data (read_result full_scale_read) ((1 + 6 * NUM_CHANNELS) * SOC_ADC_DIGI_RESULT_BYTES) = 4095"
    using full_scale_raw [of 25]
    by (simp add: full_scale_read_def NUM_CHANNELS_def SOC_ADC_DIGI_RESULT_BYTES_def)
  have idx: "1 + 1 * 2 = (3::nat)" "2 + 1 * 2 = (4::nat)"
    by simp_all
  have "(1::nat) < 3"
    by simp
  note v61 = v6 [rule_format, OF this, unfolded idx raw]
  have v: "unat (chords_packet s' ! 6 ! 3) * 256 + unat (chords_packet s' ! 6 ! 4) = 5037"
    using v61 by simp
  have z: "unat (chords_packet s' ! 6 ! 0) = 0"
    using c6 by (simp add: demo_state_def)
  have n: "NotifyCustom 1 12 (packet_bytes s') \<in> set es"
    using t by (auto simp add: demo_state_def full_scale_read_def)
  have l: "length (chords_packet s') = 25" "length (packet_bytes s') = 175"
    using t by auto
  show ?thesis
    unfolding eq prod.case using h1 h2 h3 h4 l r6 z v n by blast
qed

section \<open>The command buffer\<close>

lemma upper_loop_in_bounds:
  "n \<le> length b \<Longrightarrow> i \<le> n \<Longrightarrow>
   upper_loop n i b = Inr (take i b @ map toupper (take (n - i) (drop i b)) @ drop n b)"
proof (induction n i b rule: upper_loop.induct)
  case (1 n i b)
  show ?case
  proof (cases "i < n")
    case False
    then have "upper_loop n i b = Inr b"
      by (simp add: upper_loop.simps [of n i b])
    moreover from False "1.prems" have "i = n" by simp
    ultimately show ?thesis
      using "1.prems" by simp
  next
    case True
    with "1.prems" have ib: "i < length b" by simp
    let ?b = "b[i := toupper (b ! i)]"
    have "upper_loop n i b = upper_loop n (i + 1) ?b"
      using True ib by (simp add: upper_loop.simps [of n i b])
    also have "\<dots> = Inr (take (i + 1) ?b @ map toupper (take (n - (i + 1)) (drop (i + 1) ?b)) @ drop n ?b)"
      using "1.IH" [OF True ib] "1.prems" True by simp
    also have "take (i + 1) ?b = take i b @ [toupper (b ! i)]"
      using ib by (simp add: take_Suc_conv_app_nth)
    also have "drop (i + 1) ?b = drop (i + 1) b"
      by simp
    also have "drop n ?b = drop n b"
      using True by simp
    also have "(take i b @ [toupper (b ! i)]) @ map toupper (take (n - (i + 1)) (drop (i + 1) b)) @ drop n b
        = take i b @ map toupper (take (n - i) (drop i b)) @ drop n b"
    proof -
      have "drop i b = b ! i # drop (i + 1) b"
        using ib by (simp add: Cons_nth_drop_Suc)
      moreover have "n - i = Suc (n - (i + 1))"
        using True by simp
      ultimately show ?thesis by simp
    qed
    finally show ?thesis .
  qed
qed

lemma upper_loop_overrun:
  "length b < n \<Longrightarrow> i \<le> length b \<Longrightarrow> upper_loop n i b = Inl (OutOfBounds (length b))"
proof (induction n i b rule: upper_loop.induct)
  case (1 n i b)
  show ?case
  proof (cases "i < length b")
    case True
    then show ?thesis
      using "1.prems" "1.IH" by (simp add: upper_loop.simps [of n i b])
  next
    case False
    with "1.prems" have i: "i = length b" by simp
    have "i < n"
      using "1.prems" i by simp
    then have "upper_loop n i b = Inl (OutOfBounds i)"
      using False by (simp add: upper_loop.simps [of n i b])
    with i show ?thesis by simp
  qed
qed

lemma of_char_diff: "a \<noteq> b \<Longrightarrow> int (of_char a) - int (of_char b) \<noteq> 0"
  by simp

lemma strncmp_literal:
  "NUL \<notin> set lit \<Longrightarrow> length lit \<le> length b \<Longrightarrow>
   strncmp b (c_str lit) (length lit) = 0 \<longleftrightarrow> take (length lit) b = lit"
proof (induction lit arbitrary: b)
  case Nil
  then show ?case by (cases b) (simp_all add: c_str_def)
next
  case (Cons x xs)
  then obtain a b' where b: "b = a # b'" by (cases b) auto
  from Cons.prems have "x \<noteq> NUL" by auto
  with Cons.IH [of b'] Cons.prems show ?case
    by (auto simp add: b c_str_def)
qed

lemma take_padded:
  assumes "NUL \<notin> set lit" "0 < k" "n = length lit"
  shows "take n (u @ replicate k NUL) = lit \<longleftrightarrow> take n u = lit"
proof (cases "n \<le> length u")
  case True
  then show ?thesis by simp
next
  case False
  then have short: "length u < n" by simp
  have "take n u \<noteq> lit"
    using short assms(3) by (metis length_take min.absorb1 less_imp_le_nat nat_neq_iff take_all)
  moreover have "take n (u @ replicate k NUL) \<noteq> lit"
  proof
    assume eq: "take n (u @ replicate k NUL) = lit"
    have "NUL \<in> set (take (n - length u) (replicate k NUL))"
      using short assms(2) by (cases k; cases "n - length u") simp_all
    then have "NUL \<in> set (take n (u @ replicate k NUL))"
      by simp
    with eq assms(1) show False by simp
  qed
  ultimately show ?thesis by simp
qed

text \<open>The decoding that the handler performs on a payload of at most 19 bytes, in terms of
  the uppercased payload \<open>u\<close>.\<close>

definition decode :: "string \<Rightarrow> npg_state \<Rightarrow> npg_state \<times> effect list \<times> string" where
  "decode u s =
     (if take 5 u = ''START'' then
        (s\<lparr>streaming := True\<rparr>,
         [Pixel 0 BLUE 10, LogI ''Command: START received, streaming started.''], ''RUNNING'')
      else if take 4 u = ''STOP'' then
        (s\<lparr>streaming := False\<rparr>,
         [Pixel 0 GREEN 10, LogI ''Command: STOP received, streaming stopped.''], ''STOPPED'')
      else if take 5 u = ''WHORU'' then (s, [LogI ''Command: WHORU received.''], ''NPG-LITE'')
      else if take 6 u = ''STATUS'' then
        (s, [LogI ''Command: STATUS received.''], if streaming s then ''RUNNING'' else ''STOPPED'')
      else (s, [], ''UNKNOWN COMMAND''))"

lemma strncmp_padded:
  assumes "NUL \<notin> set lit" "0 < k" "length u + k = 20" "length lit \<le> 6" "n = length lit"
  shows "strncmp (u @ replicate k NUL) (c_str lit) n = 0 \<longleftrightarrow> take n u = lit"
proof -
  have "length lit \<le> length (u @ replicate k NUL)"
    using assms(3,4) by simp
  then show ?thesis
    using strncmp_literal [OF assms(1), of "u @ replicate k NUL"] take_padded [OF assms(1,2,5), of u]
    by (simp add: assms(5))
qed

lemma command_reply_padded:
  assumes "0 < k" "length u + k = 20"
  shows "command_reply (u @ replicate k NUL) s = decode u s"
proof -
  note p = strncmp_padded [OF _ assms]
  have "strncmp (u @ replicate k NUL) (c_str ''START'') 5 = 0 \<longleftrightarrow> take 5 u = ''START''"
    by (rule p) (simp_all add: NUL_def)
  moreover have "strncmp (u @ replicate k NUL) (c_str ''STOP'') 4 = 0 \<longleftrightarrow> take 4 u = ''STOP''"
    by (rule p) (simp_all add: NUL_def)
  moreover have "strncmp (u @ replicate k NUL) (c_str ''WHORU'') 5 = 0 \<longleftrightarrow> take 5 u = ''WHORU''"
    by (rule p) (simp_all add: NUL_def)
  moreover have "strncmp (u @ replicate k NUL) (c_str ''STATUS'') 6 = 0 \<longleftrightarrow> take 6 u = ''STATUS''"
    by (rule p) (simp_all add: NUL_def)
  ultimately show ?thesis
    by (simp add: command_reply_def decode_def set_pixel_def NUM_NEOPIXEL_def)
qed

lemma write_short:
  assumes "gatt_op ctxt = WRITE_CHR" "length (om_data ctxt) \<le> 19"
  shows "gatt_svr_chr_access_cb ch attr ctxt s =
     (case decode (map toupper (om_data ctxt)) s of
        (s', es, response) \<Rightarrow>
          Inr (s',
               es @ notify_flat ch attr (bytes_of response) (resp_om_ok ctxt) (resp_notify_rc ctxt)
                      ''Failed to notify control response'',
               0))"
proof -
  let ?buf = "om_data ctxt"
  let ?k = "20 - length ?buf"
  have copy: "(if length ?buf < 19 then length ?buf else 19) = length ?buf"
    using assms(2) by simp
  have up: "upper_loop (length ?buf) 0 (?buf @ replicate ?k NUL)
      = Inr (map toupper ?buf @ replicate ?k NUL)"
    using upper_loop_in_bounds [of "length ?buf" "?buf @ replicate ?k NUL" 0] by simp
  have nul: "(map toupper ?buf @ replicate ?k NUL)[length ?buf := NUL]
      = map toupper ?buf @ replicate ?k NUL"
  proof -
    have "(replicate ?k NUL)[0 := NUL] = replicate ?k NUL"
      by (cases ?k) simp_all
    then show ?thesis
      by (simp add: list_update_append)
  qed
  have rep: "command_reply (map toupper ?buf @ replicate ?k NUL) s = decode (map toupper ?buf) s"
    using assms(2) by (intro command_reply_padded) simp_all
  show ?thesis
    using assms(2)
    by (simp add: gatt_svr_chr_access_cb_def assms(1) Let_def copy up nul rep)
qed

lemma write_long:
  assumes "gatt_op ctxt = WRITE_CHR" "20 \<le> length (om_data ctxt)"
  shows "gatt_svr_chr_access_cb ch attr ctxt s = Inl (OutOfBounds 20)"
proof (cases "length (om_data ctxt) = 20")
  case True
  let ?c = "take 19 (om_data ctxt) @ replicate (20 - 19) NUL"
  have "upper_loop 20 0 ?c = Inr (take 0 ?c @ map toupper (take (20 - 0) (drop 0 ?c)) @ drop 20 ?c)"
    using True by (intro upper_loop_in_bounds) simp_all
  then show ?thesis
    using True by (simp add: gatt_svr_chr_access_cb_def assms(1) Let_def)
next
  case False
  let ?c = "take 19 (om_data ctxt) @ replicate (20 - 19) NUL"
  have "upper_loop (length (om_data ctxt)) 0 ?c = Inl (OutOfBounds (length ?c))"
    using False assms(2) by (intro upper_loop_overrun) simp_all
  then show ?thesis
    using False assms(2) by (simp add: gatt_svr_chr_access_cb_def assms(1) Let_def)
qed

text \<open>A write to the control characteristic that the host acknowledges.\<close>

definition control_write :: "string \<Rightarrow> gatt_access" where
  "control_write payload =
     \<lparr>gatt_op = WRITE_CHR, om_data = payload, resp_om_ok = True, resp_notify_rc = 0,
      append_rc = 0\<rparr>"

text \<open>
  Claim C9. The claim says that every access of the handler to its 20-byte command buffer
  stays inside the buffer for a payload of any length. The copy does (it is cut to 19
  bytes), but the uppercasing loop and the terminator use the payload length: a payload of
  20 bytes makes the handler write the terminating NUL to \<open>cmd_buffer[20]\<close>, one past the
  end of the array (and a longer payload makes the loop read and write there).
\<close>

theorem terminator_past_buffer:
  "gatt_svr_chr_access_cb 1 15 (control_write (replicate 20 CHR ''A'')) demo_state
     = Inl (OutOfBounds 20)"
  by (simp add: write_long control_write_def)




lemma stop_not_start: "take 4 u = ''STOP'' \<Longrightarrow> take 5 u \<noteq> ''START''"
proof
  assume a: "take 4 u = ''STOP''" and b: "take 5 u = ''START''"
  have "take 4 u = take 4 (take 5 u)" by simp
  with a b show False by simp
qed

text \<open>
  Claim C8. A \<open>STOP\<close> command (a payload of at most 19 bytes whose uppercased prefix is
  \<open>STOP\<close>) written while the streaming flag is false is answered with \<open>STOPPED\<close> and
  leaves the state as it was; a \<open>START\<close> command written while the flag is true is
  answered with \<open>RUNNING\<close> and leaves the state as it was. The calls made are those of
  any \<open>STOP\<close> or \<open>START\<close>: the pixel, the log line and the response.
\<close>

theorem start_stop_idempotent:
  assumes "gatt_op ctxt = WRITE_CHR" and "length (om_data ctxt) \<le> 19"
  shows "(take 4 (map toupper (om_data ctxt)) = ''STOP'' \<and> \<not> streaming s \<longrightarrow>
            gatt_svr_chr_access_cb ch attr ctxt s =
              Inr (s,
                   [Pixel 0 GREEN 10, LogI ''Command: STOP received, streaming stopped.'']
                   @ notify_flat ch attr (bytes_of ''STOPPED'') (resp_om_ok ctxt)
                       (resp_notify_rc ctxt) ''Failed to notify control response'',
                   0))
       \<and> (take 5 (map toupper (om_data ctxt)) = ''START'' \<and> streaming s \<longrightarrow>
            gatt_svr_chr_access_cb ch attr ctxt s =
              Inr (s,
                   [Pixel 0 BLUE 10, LogI ''Command: START received, streaming started.'']
                   @ notify_flat ch attr (bytes_of ''RUNNING'') (resp_om_ok ctxt)
                       (resp_notify_rc ctxt) ''Failed to notify control response'',
                   0))"
proof -
  have off: "s\<lparr>streaming := False\<rparr> = s" if "\<not> streaming s"
    using that by (cases s) simp
  have on: "s\<lparr>streaming := True\<rparr> = s" if "streaming s"
    using that by (cases s) simp
  show ?thesis
    unfolding write_short [OF assms]
    by (auto simp add: decode_def off on dest: stop_not_start)
qed

theorem start_stop_idempotent_witness:
  "gatt_svr_chr_access_cb 1 15 (control_write ''stop'') (demo_state\<lparr>streaming := False\<rparr>) =
     Inr (demo_state\<lparr>streaming := False\<rparr>,
          [Pixel 0 GREEN 10, LogI ''Command: STOP received, streaming stopped.'',
           MbufFromFlat (bytes_of ''STOPPED''), NotifyCustom 1 15 (bytes_of ''STOPPED'')],
          0)
   \<and> gatt_svr_chr_access_cb 1 15 (control_write ''Start now'') demo_state =
     Inr (demo_state,
          [Pixel 0 BLUE 10, LogI ''Command: START received, streaming started.'',
           MbufFromFlat (bytes_of ''RUNNING''), NotifyCustom 1 15 (bytes_of ''RUNNING'')],
          0)"
proof -
  have "gatt_op (control_write p) = WRITE_CHR" for p
    by (simp add: control_write_def)
  moreover have "length (om_data (control_write ''stop'')) \<le> 19"
    and "length (om_data (control_write ''Start now'')) \<le> 19"
    by (simp_all add: control_write_def)
  moreover have "\<not> streaming (demo_state\<lparr>streaming := False\<rparr>)" and "streaming demo_state"
    by (simp_all add: demo_state_def)
  moreover have "take 4 (map toupper (om_data (control_write ''stop''))) = ''STOP''"
    and "take 5 (map toupper (om_data (control_write ''Start now''))) = ''START''"
    by code_simp+
  ultimately show ?thesis
    using start_stop_idempotent [of "control_write ''stop''" "demo_state\<lparr>streaming := False\<rparr>" 1 15]
      start_stop_idempotent [of "control_write ''Start now''" demo_state 1 15]
    by (simp add: notify_flat_def control_write_def)
qed

text \<open>
  Claim C7. On a disconnect event, whatever the state, the handler raises the disconnected
  indication (pixel 0 red), sets the streaming flag to false and calls
  \<open>start_advertising\<close> before it returns: the advertising data are set and, when the
  host accepts them, advertising is started.
\<close>

theorem link_loss_handler:
  "gap_event_handler (DISCONNECT reason) h s =
     (s\<lparr>streaming := False\<rparr>,
      Pixel 0 RED 10 # LogI ''Disconnected'' # start_advertising h, 0)
   \<and> hd (start_advertising h) = AdvSetFields
   \<and> (adv_set_fields_rc h = 0 \<longrightarrow> start_advertising h ! 1 = AdvStart)"
  by (simp add: gap_event_handler_def start_advertising_def set_pixel_def NUM_NEOPIXEL_def)

text \<open>A wireless host that accepts every call.\<close>

definition host_ok :: host_rc where
  "host_ok = \<lparr>conn_find_rc = 0, update_params_rc = 0, adv_set_fields_rc = 0, adv_start_rc = 0\<rparr>"

theorem link_loss_handler_witness:
  "gap_event_handler (DISCONNECT 19) host_ok demo_state =
     (demo_state\<lparr>streaming := False\<rparr>,
      [Pixel 0 RED 10, LogI ''Disconnected'', AdvSetFields, AdvStart,
       LogI ''BLE Advertising started''], 0)"
  using link_loss_handler [of 19 host_ok demo_state]
  by (simp add: start_advertising_def host_ok_def)

section \<open>Runs of the device: the sequence counter\<close>

lemma concat_nth_uniform:
  "list_all (\<lambda>row. length row = m) rows \<Longrightarrow> j < length rows \<Longrightarrow> i < m \<Longrightarrow>
   concat rows ! (j * m + i) = rows ! j ! i"
proof (induction rows arbitrary: j)
  case Nil
  then show ?case by simp
next
  case (Cons r rows)
  show ?case
  proof (cases j)
    case 0
    with Cons.prems show ?thesis by (simp add: nth_append)
  next
    case (Suc k)
    with Cons.prems have "concat rows ! (k * m + i) = rows ! k ! i"
      by (intro Cons.IH) simp_all
    with Cons.prems Suc show ?thesis
      by (simp add: nth_append add.assoc)
  qed
qed

lemma sequence_bytes_rows:
  "sequence_bytes (concat (rows_from frame 0 c)) = map (\<lambda>j. c + of_nat j) [0..<PACKET_LEN]"
proof -
  have all: "list_all (\<lambda>row. length row = SAMPLE_SIZE) (rows_from frame 0 c)"
    by (simp add: list_all_length length_rows_from nth_rows_from length_sample_row
        SAMPLE_SIZE_def NUM_CHANNELS_def)
  have "concat (rows_from frame 0 c) ! (j * SAMPLE_SIZE) = c + of_nat j" if "j < PACKET_LEN" for j
  proof -
    have "concat (rows_from frame 0 c) ! (j * SAMPLE_SIZE + 0) = rows_from frame 0 c ! j ! 0"
      using that by (intro concat_nth_uniform [OF all]) (simp_all add: length_rows_from SAMPLE_SIZE_def)
    then show ?thesis
      using that by (simp add: nth_rows_from sample_row_def)
  qed
  then show ?thesis
    by (simp add: sequence_bytes_def)
qed

lemma flat_buffers_append: "flat_buffers (xs @ ys) = flat_buffers xs @ flat_buffers ys"
  by (induction xs rule: flat_buffers.induct) simp_all

lemma flat_buffers_battery_check: "flat_buffers (battery_check r) = []"
  by (simp add: battery_check_def set_pixel_def)

lemma flat_buffers_notify_flat: "flat_buffers (notify_flat ch attr bytes ok rc msg) = [bytes]"
  by (simp add: notify_flat_def)

text \<open>A conversion read is good when the driver reports success and a full frame.\<close>

definition good_read :: "conv_read \<Rightarrow> bool" where
  "good_read c \<longleftrightarrow> read_ret c = ESP_OK \<and> unat (read_size_ret c) = CONV_FRAME_SIZE"

lemma packet_shape_rows:
  "packet_shape (s\<lparr>chords_packet := rows_from frame 0 c\<rparr>)"
  by (simp add: packet_shape_def length_rows_from list_all_length nth_rows_from length_sample_row
      SAMPLE_SIZE_def NUM_CHANNELS_def)

lemma step_cycle_good:
  assumes "good_read c" "packet_shape s"
  shows "\<exists>s1 es1. step (ConvCycle c) s = Inr (s1, es1) \<and> packet_shape s1
      \<and> counter s1 = counter s + of_nat PACKET_LEN
      \<and> flat_buffers es1 = [concat (rows_from (read_result c) 0 (counter s))]"
  using assms
  by (simp add: step_def good_read_def adc_cycle_valid flat_buffers_append
      flat_buffers_battery_check flat_buffers_notify_flat packet_shape_def length_rows_from
      list_all_length nth_rows_from length_sample_row SAMPLE_SIZE_def NUM_CHANNELS_def)

lemma step_cycle_bad:
  assumes "\<not> good_read c"
  shows "step (ConvCycle c) s = Inr (s, [LogE ''Corrupted reading from adc''])"
  using assms by (auto simp add: step_def good_read_def adc_cycle_def)

lemma gap_event_handler_locals:
  "gap_event_handler g h s = (s1, es, rc) \<Longrightarrow>
   counter s1 = counter s \<and> chords_packet s1 = chords_packet s"
  by (auto simp add: gap_event_handler_def split: gap_event.splits if_splits)






lemma packets_skipped:
  "list_all (\<lambda>c. \<not> good_read c) cs \<Longrightarrow> packets (map ConvCycle cs @ evs) s = packets evs s"
  by (induction cs) (simp_all add: step_cycle_bad)

lemma run_skipped:
  "list_all (\<lambda>c. \<not> good_read c) cs \<Longrightarrow>
   run (map ConvCycle cs) s = Inr (s, replicate (length cs) (LogE ''Corrupted reading from adc''))"
  by (induction cs) (simp_all add: step_cycle_bad)

lemma concat_rows_first: "concat (rows_from frame 0 c) ! 0 = c"
  using sequence_bytes_rows [of frame c]
  by (simp add: sequence_bytes_def PACKET_LEN_def upt_conv_Cons)

lemma concat_rows_last:
  "concat (rows_from frame 0 c) ! ((PACKET_LEN - 1) * SAMPLE_SIZE) = c + of_nat (PACKET_LEN - 1)"
proof -
  have "sequence_bytes (concat (rows_from frame 0 c)) ! (PACKET_LEN - 1)
      = map (\<lambda>j. c + of_nat j) [0..<PACKET_LEN] ! (PACKET_LEN - 1)"
    by (simp add: sequence_bytes_rows)
  then show ?thesis
    by (simp add: sequence_bytes_def PACKET_LEN_def)
qed

text \<open>Two reads that are not good: a frame that is four bytes short, and a timeout.\<close>

definition short_read :: conv_read where
  "short_read =
     \<lparr>read_ret = 0, read_size_ret = 396, read_result = replicate 400 0xFF,
      om_ok = True, notify_rc = 0\<rparr>"

definition timeout_read :: conv_read where
  "timeout_read =
     \<lparr>read_ret = 263, read_size_ret = 0, read_result = replicate 400 0,
      om_ok = True, notify_rc = 0\<rparr>"

lemma good_full_scale_read: "good_read full_scale_read"
  by (simp add: good_read_def full_scale_read_def ESP_OK_def CONV_FRAME_SIZE_def NUM_CHANNELS_def
      PACKET_LEN_def SOC_ADC_DIGI_RESULT_BYTES_def)

lemma bad_short_read: "\<not> good_read short_read"
  by (simp add: good_read_def short_read_def ESP_OK_def CONV_FRAME_SIZE_def NUM_CHANNELS_def
      PACKET_LEN_def SOC_ADC_DIGI_RESULT_BYTES_def)

lemma bad_timeout_read: "\<not> good_read timeout_read"
  by (simp add: good_read_def timeout_read_def ESP_OK_def)

lemma packet_shape_demo_state: "packet_shape demo_state"
  by (simp add: demo_state_def packet_shape_def PACKET_LEN_def SAMPLE_SIZE_def NUM_CHANNELS_def
      list_all_length)

lemma no_notify_in_log: "NotifyCustom ch attr bytes \<notin> set [LogE msg]"
  by simp

text \<open>
  Claim C5. When the conversion read returns an error status or a size other than the
  frame size, the pass of the streaming loop only logs the event: nothing is handed to
  \<open>ble_hs_mbuf_from_flat\<close> or \<open>ble_gatts_notify_custom\<close>, and the state, with the
  rolling counter and the streaming flag, is as it was.
\<close>

theorem corrupted_read_skipped:
  assumes "read_ret c \<noteq> ESP_OK \<or> unat (read_size_ret c) \<noteq> CONV_FRAME_SIZE"
  shows "adc_cycle c s = (s, [LogE ''Corrupted reading from adc''])
     \<and> flat_buffers (snd (adc_cycle c s)) = []
     \<and> list_all (\<lambda>e. case e of NotifyCustom ch attr bytes \<Rightarrow> False | _ \<Rightarrow> True) (snd (adc_cycle c s))
     \<and> counter (fst (adc_cycle c s)) = counter s
     \<and> streaming (fst (adc_cycle c s)) = streaming s"
  using assms by (auto simp add: adc_cycle_def)

theorem corrupted_read_skipped_witness:
  "unat (read_size_ret short_read) = 396 \<and> read_ret timeout_read = 263
   \<and> adc_cycle short_read demo_state = (demo_state, [LogE ''Corrupted reading from adc''])
   \<and> adc_cycle timeout_read demo_state = (demo_state, [LogE ''Corrupted reading from adc''])
   \<and> counter (fst (adc_cycle short_read demo_state)) = 250"
proof -
  have a: "read_ret short_read \<noteq> ESP_OK \<or> unat (read_size_ret short_read) \<noteq> CONV_FRAME_SIZE"
    using bad_short_read by (simp add: good_read_def)
  have b: "read_ret timeout_read \<noteq> ESP_OK \<or> unat (read_size_ret timeout_read) \<noteq> CONV_FRAME_SIZE"
    using bad_timeout_read by (simp add: good_read_def)
  have "unat (read_size_ret short_read) = 396" and "read_ret timeout_read = 263"
    by (simp_all add: short_read_def timeout_read_def)
  moreover have "counter demo_state = 250"
    by (simp add: demo_state_def)
  ultimately show ?thesis
    using corrupted_read_skipped [OF a, of demo_state] corrupted_read_skipped [OF b, of demo_state]
    by simp
qed








lemma packets_cycle_good:
  assumes "good_read c" "packet_shape s"
  shows "\<exists>s1. packet_shape s1 \<and> counter s1 = counter s + of_nat PACKET_LEN
      \<and> (\<forall>evs. packets (ConvCycle c # evs) s
            = concat (rows_from (read_result c) 0 (counter s)) # packets evs s1)
      \<and> s1 = fst (adc_cycle c s)"
proof -
  from step_cycle_good [OF assms] obtain s1 es1 where
    st: "step (ConvCycle c) s = Inr (s1, es1)" and sh: "packet_shape s1"
    and cnt: "counter s1 = counter s + of_nat PACKET_LEN"
    and fb: "flat_buffers es1 = [concat (rows_from (read_result c) 0 (counter s))]"
    by blast
  have "adc_cycle c s = (s1, es1)"
    using st by (simp add: step_def)
  with st sh cnt fb show ?thesis
    by simp
qed



lemma counter_gap: "counter (fst (gap_event_handler g h s)) = counter s"
  using gap_event_handler_locals [of g h s]
  by (cases "gap_event_handler g h s") simp


text \<open>
  Claim C10. A pass with a good read, then any number of passes with corrupted reads, then
  a pass with a good read produce exactly two data packets, and the first sequence byte of
  the second is the last sequence byte of the first plus one (modulo 256): after the
  skipped passes the state is the state that the first pass left.
\<close>

theorem skipped_cycle_no_gap:
  assumes "good_read c1" and "list_all (\<lambda>c. \<not> good_read c) skipped" and "good_read c2"
    and "packet_shape s"
  shows "\<exists>p1 p2. packets (ConvCycle c1 # map ConvCycle skipped @ [ConvCycle c2]) s = [p1, p2]
           \<and> p2 ! 0 = p1 ! ((PACKET_LEN - 1) * SAMPLE_SIZE) + 1
           \<and> run (ConvCycle c1 # map ConvCycle skipped) s
               = Inr (fst (adc_cycle c1 s),
                      snd (adc_cycle c1 s)
                      @ replicate (length skipped) (LogE ''Corrupted reading from adc''))"
proof -
  from packets_cycle_good [OF assms(1,4)] obtain s1 where
    sh1: "packet_shape s1" and c1: "counter s1 = counter s + of_nat PACKET_LEN"
    and p1: "\<And>evs. packets (ConvCycle c1 # evs) s
        = concat (rows_from (read_result c1) 0 (counter s)) # packets evs s1"
    and s1: "s1 = fst (adc_cycle c1 s)"
    by blast
  from packets_cycle_good [OF assms(3) sh1] obtain s2 where
    p2: "\<And>evs. packets (ConvCycle c2 # evs) s1
        = concat (rows_from (read_result c2) 0 (counter s1)) # packets evs s2"
    by blast
  let ?p1 = "concat (rows_from (read_result c1) 0 (counter s))"
  let ?p2 = "concat (rows_from (read_result c2) 0 (counter s1))"
  have "packets (ConvCycle c1 # map ConvCycle skipped @ [ConvCycle c2]) s = [?p1, ?p2]"
    using p1 [of "map ConvCycle skipped @ [ConvCycle c2]"]
    by (simp add: packets_skipped [OF assms(2)] p2 del: packets.simps(2))
  moreover have "?p2 ! 0 = ?p1 ! ((PACKET_LEN - 1) * SAMPLE_SIZE) + 1"
    using concat_rows_last [of "read_result c1" "counter s"]
    by (simp add: concat_rows_first c1 PACKET_LEN_def)
  moreover have "run (ConvCycle c1 # map ConvCycle skipped) s
      = Inr (fst (adc_cycle c1 s),
             snd (adc_cycle c1 s) @ replicate (length skipped) (LogE ''Corrupted reading from adc''))"
    by (cases "adc_cycle c1 s") (simp add: step_def run_skipped [OF assms(2)])
  ultimately show ?thesis
    by blast
qed

theorem skipped_cycle_no_gap_witness:
  "good_read full_scale_read \<and> \<not> good_read short_read \<and> \<not> good_read timeout_read
   \<and> packet_shape demo_state
   \<and> (\<exists>p1 p2.
         packets [ConvCycle full_scale_read, ConvCycle short_read, ConvCycle timeout_read,
                  ConvCycle full_scale_read] demo_state = [p1, p2]
         \<and> p2 ! 0 = p1 ! 168 + 1)"
proof -
  have sk: "list_all (\<lambda>c. \<not> good_read c) [short_read, timeout_read]"
    by (simp add: bad_short_read bad_timeout_read)
  from skipped_cycle_no_gap [OF good_full_scale_read sk good_full_scale_read packet_shape_demo_state]
  obtain p1 p2 where
    "packets [ConvCycle full_scale_read, ConvCycle short_read, ConvCycle timeout_read,
              ConvCycle full_scale_read] demo_state = [p1, p2]"
    and "p2 ! 0 = p1 ! ((PACKET_LEN - 1) * SAMPLE_SIZE) + 1"
    by auto
  then show ?thesis
    using good_full_scale_read bad_short_read bad_timeout_read packet_shape_demo_state
    by (auto simp add: PACKET_LEN_def SAMPLE_SIZE_def NUM_CHANNELS_def)
qed






section \<open>The low-battery cutoff\<close>

text \<open>A read in which every conversion result is the code 1870: the battery channel then
  gives the mean reading 4600, about 3.57 V, which the table maps to 4 percent.\<close>

definition weak_battery_read :: conv_read where
  "weak_battery_read =
     \<lparr>read_ret = 0, read_size_ret = 400,
      read_result = concat (replicate 100 [0x4E, 0x07, 0x00, 0x00]),
      om_ok = True, notify_rc = 0\<rparr>"

lemma good_weak_battery_read: "good_read weak_battery_read"
  by (simp add: good_read_def weak_battery_read_def ESP_OK_def CONV_FRAME_SIZE_def NUM_CHANNELS_def
      PACKET_LEN_def SOC_ADC_DIGI_RESULT_BYTES_def)

lemma weak_battery_mean: "battery_mean (read_result weak_battery_read) = 4600"
  by code_simp

lemma weak_battery_percent: "battery_percent 4600 = 4"
  by code_simp


lemma battery_check_low:
  "battery_percent r < 5 \<Longrightarrow>
   battery_check r = [Pixel 5 RED 10, NimblePortStop, AdcContinuousStop,
                      LogE ''Low Battery, please charge device before use'']"
  by (simp add: battery_check_def set_pixel_def NUM_NEOPIXEL_def)

text \<open>
  Claim C3. A streaming device runs a pass whose battery estimate is 4 percent, below the
  threshold of 5. \<open>battery_check\<close> raises the low-battery indication (pixel 5 red),
  stops the wireless host and stops the hardware sampling, in this order, and logs. It has
  no assignment to the streaming flag, where the disconnect handler and the \<open>STOP\<close>
  command have one: whatever the stopped host answers to the calls that follow, the flag is
  still true after the pass, and the next call of the pass hands the packet to
  \<open>ble_hs_mbuf_from_flat\<close>. The claim has the flag forced to false.
\<close>

theorem low_battery_flag_stays_true:
  "streaming demo_state
   \<and> battery_percent (battery_reading
        (fst (adc_cycle (weak_battery_read\<lparr>om_ok := ok, notify_rc := rc\<rparr>) demo_state))) = 4
   \<and> take 5 (snd (adc_cycle (weak_battery_read\<lparr>om_ok := ok, notify_rc := rc\<rparr>) demo_state))
       = [Pixel 5 RED 10, NimblePortStop, AdcContinuousStop,
          LogE ''Low Battery, please charge device before use'',
          MbufFromFlat (packet_bytes
            (fst (adc_cycle (weak_battery_read\<lparr>om_ok := ok, notify_rc := rc\<rparr>) demo_state)))]
   \<and> streaming (fst (adc_cycle (weak_battery_read\<lparr>om_ok := ok, notify_rc := rc\<rparr>) demo_state))"
proof -
  let ?c = "weak_battery_read\<lparr>om_ok := ok, notify_rc := rc\<rparr>"
  have rr: "read_result ?c = read_result weak_battery_read"
    by simp
  have "good_read ?c"
    using good_weak_battery_read by (simp add: good_read_def)
  then have v: "adc_cycle ?c demo_state =
     (demo_state\<lparr>chords_packet := rows_from (read_result weak_battery_read) 0 (counter demo_state),
         counter := counter demo_state + of_nat PACKET_LEN,
         adc_reading := battery_scaled (read_result weak_battery_read) (PACKET_LEN - 1),
         battery_reading := battery_mean (read_result weak_battery_read)\<rparr>,
      battery_check (battery_mean (read_result weak_battery_read))
      @ notify_flat (conn_handle demo_state) (data_char_handle demo_state)
          (concat (rows_from (read_result weak_battery_read) 0 (counter demo_state)))
          ok rc ''Notification failed'')"
    using adc_cycle_valid [of ?c demo_state] packet_shape_demo_state
    by (simp add: good_read_def)
  have low: "battery_percent 4600 < 5"
    by (simp add: weak_battery_percent)
  have pk: "take PACKET_SIZE (concat (rows_from f 0 c)) = concat (rows_from f 0 c)" for f c
    by (simp add: length_concat_rows PACKET_SIZE_def SAMPLE_SIZE_def NUM_CHANNELS_def)
  have st: "streaming demo_state"
    by (simp add: demo_state_def)
  show ?thesis
    by (simp add: v weak_battery_mean weak_battery_percent battery_check_low [OF low]
        notify_flat_def packet_bytes_def pk st)
qed

section \<open>The battery curve\<close>

subsection \<open>Rounding to the nearest integer and to \<open>p\<close> significant bits\<close>

lemma rne_floor: "\<lfloor>x\<rfloor> \<le> rne x \<and> rne x \<le> \<lfloor>x\<rfloor> + 1"
  by (simp add: rne_def Let_def)

lemma rne_of_int [simp]: "rne (of_int k) = k"
  by (simp add: rne_def Let_def)

lemma rne_mono: "x \<le> y \<Longrightarrow> rne x \<le> rne y"
proof -
  assume xy: "x \<le> y"
  then have fl: "\<lfloor>x\<rfloor> \<le> \<lfloor>y\<rfloor>" by (rule floor_mono)
  show ?thesis
  proof (cases "\<lfloor>x\<rfloor> < \<lfloor>y\<rfloor>")
    case True
    then show ?thesis
      using rne_floor [of x] rne_floor [of y] by linarith
  next
    case False
    with fl have eq: "\<lfloor>x\<rfloor> = \<lfloor>y\<rfloor>" by simp
    with xy have "x - of_int \<lfloor>x\<rfloor> \<le> y - of_int \<lfloor>y\<rfloor>" by simp
    then show ?thesis
      by (auto simp add: rne_def Let_def eq)
  qed
qed

lemma rne_error: "\<bar>of_int (rne x) - x\<bar> \<le> 1 / 2"
proof -
  have "of_int \<lfloor>x\<rfloor> \<le> x" and "x < of_int \<lfloor>x\<rfloor> + 1"
    by linarith+
  then show ?thesis
    by (auto simp add: rne_def Let_def abs_le_iff)
qed

lemma two_powi_pos [simp]: "0 < (2::rat) powi k"
  by simp

lemma two_powi_nat: "(2::rat) powi (int n) = of_int (2 ^ n)"
  by simp

lemma bitlen_rat_bounds:
  assumes "0 < a"
  shows "(2::rat) powi (bitlen a - 1) \<le> of_int a" and "of_int a < (2::rat) powi (bitlen a)"
proof -
  from bitlen_bounds [OF assms] have lo: "2 ^ nat (bitlen a - 1) \<le> a" and hi: "a < 2 ^ nat (bitlen a)"
    by simp_all
  have ge1: "1 \<le> bitlen a"
    using assms by (simp add: bitlen_alt_def)
  have "(2::rat) powi (bitlen a - 1) = of_int (2 ^ nat (bitlen a - 1))"
    using ge1 by (simp add: power_int_def)
  also have "\<dots> \<le> of_int a"
    using lo by (simp only: of_int_le_iff)
  finally show "(2::rat) powi (bitlen a - 1) \<le> of_int a" .
  have "(of_int a :: rat) < of_int (2 ^ nat (bitlen a))"
    using hi by (simp only: of_int_less_iff)
  also have "\<dots> = (2::rat) powi (bitlen a)"
    using ge1 by (simp add: power_int_def)
  finally show "of_int a < (2::rat) powi (bitlen a)" .
qed

lemma ilog2_bounds:
  assumes "0 < x"
  shows "2 powi (ilog2 x) \<le> x" and "x < 2 powi (ilog2 x + 1)"
proof -
  obtain a b where q: "quotient_of x = (a, b)"
    by (cases "quotient_of x")
  then have b: "0 < b" and x: "x = of_int a / of_int b"
    by (simp_all add: quotient_of_denom_pos quotient_of_div)
  with assms have a: "0 < a"
    by (simp add: zero_less_divide_iff)
  let ?k = "bitlen a - bitlen b"
  note A = bitlen_rat_bounds [OF a] and B = bitlen_rat_bounds [OF b]
  have up: "x < 2 powi (?k + 1)"
  proof -
    have "x < 2 powi (bitlen a) / 2 powi (bitlen b - 1)"
      unfolding x using A(2) B(1) a b
      by (intro frac_less) simp_all
    also have "\<dots> = 2 powi (?k + 1)"
      by (simp add: power_int_diff [symmetric] algebra_simps)
    finally show ?thesis .
  qed
  have low: "2 powi (?k - 1) \<le> x"
  proof -
    have "2 powi (bitlen a - 1) / 2 powi (bitlen b) \<le> x"
      unfolding x using A(1) B(2) a b
      by (intro frac_le) simp_all
    moreover have "2 powi (bitlen a - 1) / 2 powi (bitlen b) = (2::rat) powi (?k - 1)"
      by (simp add: power_int_diff [symmetric] algebra_simps)
    ultimately show ?thesis by simp
  qed
  show "2 powi (ilog2 x) \<le> x"
    using low by (simp add: ilog2_def q Let_def)
  show "x < 2 powi (ilog2 x + 1)"
    using up by (auto simp add: ilog2_def q Let_def not_le)
qed

lemma ilog2_unique:
  assumes "2 powi e \<le> x" and "x < 2 powi (e + 1)"
  shows "ilog2 x = e"
proof -
  have pos: "0 < x"
    using assms(1) two_powi_pos [of e] by linarith
  note b = ilog2_bounds [OF pos]
  have "(2::rat) powi e < 2 powi (ilog2 x + 1)"
    using assms(1) b(2) by linarith
  then have "e < ilog2 x + 1"
    by (metis linorder_not_less power_int_increasing one_le_numeral)
  moreover have "(2::rat) powi (ilog2 x) < 2 powi (e + 1)"
    using assms(2) b(1) by linarith
  then have "ilog2 x < e + 1"
    by (metis linorder_not_less power_int_increasing one_le_numeral)
  ultimately show ?thesis by simp
qed

lemma ilog2_mono:
  assumes "0 < x" and "x \<le> y"
  shows "ilog2 x \<le> ilog2 y"
proof -
  have y: "0 < y" using assms by simp
  have "(2::rat) powi (ilog2 x) < 2 powi (ilog2 y + 1)"
    using ilog2_bounds(1) [OF assms(1)] ilog2_bounds(2) [OF y] assms(2) by linarith
  then have "ilog2 x < ilog2 y + 1"
    by (metis linorder_not_less power_int_increasing one_le_numeral)
  then show ?thesis by simp
qed

lemma fl_round_zero [simp]: "fl_round p 0 = 0"
  by (simp add: fl_round_def)

lemma fl_round_pos:
  "0 < x \<Longrightarrow> fl_round p x = of_int (rne (x / 2 powi (ilog2 x - int p + 1))) * 2 powi (ilog2 x - int p + 1)"
  by (simp add: fl_round_def Let_def)

lemma two_powi_mult: "(2::rat) powi a * 2 powi b = 2 powi (a + b)"
  by (simp add: power_int_add)

lemma rne_pow2 [simp]: "rne (2 ^ n) = 2 ^ n"
  using rne_of_int [of "2 ^ n"] by simp

lemma scaled_bounds:
  assumes "0 < x"
  shows "2 powi (int p - 1) \<le> x / 2 powi (ilog2 x - int p + 1)"
    and "x / 2 powi (ilog2 x - int p + 1) < 2 powi (int p)"
proof -
  let ?e = "ilog2 x"
  let ?q = "(2::rat) powi (?e - int p + 1)"
  have q: "0 < ?q" by simp
  have "2 powi (int p - 1) * ?q = (2::rat) powi ?e"
    by (simp only: two_powi_mult) simp
  with ilog2_bounds(1) [OF assms] have "2 powi (int p - 1) * ?q \<le> x" by simp
  then show "2 powi (int p - 1) \<le> x / ?q"
    using q by (simp add: pos_le_divide_eq)
  have "2 powi (int p) * ?q = (2::rat) powi (?e + 1)"
    by (simp only: two_powi_mult) simp
  with ilog2_bounds(2) [OF assms] have "x < 2 powi (int p) * ?q" by simp
  then show "x / ?q < 2 powi (int p)"
    using q by (simp add: pos_divide_less_eq)
qed

lemma fl_round_binade:
  assumes "0 < x" "0 < p"
  shows "2 powi (ilog2 x) \<le> fl_round p x" and "fl_round p x \<le> 2 powi (ilog2 x + 1)"
proof -
  let ?e = "ilog2 x"
  let ?q = "(2::rat) powi (?e - int p + 1)"
  let ?r = "rne (x / ?q)"
  have q: "0 \<le> ?q" by simp
  have fl: "fl_round p x = of_int ?r * ?q"
    by (rule fl_round_pos [OF assms(1)])
  have lo: "(2::rat) powi (int p - 1) = of_int (2 ^ (p - 1))"
    using assms(2) by (simp add: power_int_def nat_diff_distrib)
  have hi: "(2::rat) powi (int p) = of_int (2 ^ p)"
    by simp
  have "rne (of_int (2 ^ (p - 1))) \<le> ?r"
    using scaled_bounds(1) [OF assms(1), of p] unfolding lo by (rule rne_mono)
  then have r1: "(of_int (2 ^ (p - 1)) :: rat) \<le> of_int ?r"
    by (simp only: rne_of_int of_int_le_iff)
  have "(2::rat) powi ?e = 2 powi (int p - 1) * ?q"
    by (simp only: two_powi_mult) simp
  also have "\<dots> = of_int (2 ^ (p - 1)) * ?q"
    by (simp only: lo)
  also have "\<dots> \<le> of_int ?r * ?q"
    using r1 q by (rule mult_right_mono)
  finally show "2 powi ?e \<le> fl_round p x"
    by (simp only: fl)
  have "x / ?q \<le> of_int (2 ^ p)"
    using scaled_bounds(2) [OF assms(1), of p] unfolding hi by simp
  then have "?r \<le> rne (of_int (2 ^ p))"
    by (rule rne_mono)
  then have r2: "(of_int ?r :: rat) \<le> of_int (2 ^ p)"
    by (simp only: rne_of_int of_int_le_iff)
  have "of_int ?r * ?q \<le> of_int (2 ^ p) * ?q"
    using r2 q by (rule mult_right_mono)
  also have "\<dots> = 2 powi (int p) * ?q"
    by (simp only: hi)
  also have "\<dots> = 2 powi (?e + 1)"
    by (simp only: two_powi_mult) simp
  finally show "fl_round p x \<le> 2 powi (?e + 1)"
    by (simp only: fl)
qed

lemma fl_round_nonneg:
  assumes "0 \<le> x" "0 < p"
  shows "0 \<le> fl_round p x"
proof (cases "x = 0")
  case True
  then show ?thesis by simp
next
  case False
  with assms have "0 < x" by simp
  from fl_round_binade(1) [OF this assms(2)] two_powi_pos [of "ilog2 x"] show ?thesis
    by linarith
qed

lemma fl_round_mono:
  assumes "0 \<le> x" "x \<le> y" "0 < p"
  shows "fl_round p x \<le> fl_round p y"
proof (cases "x = 0")
  case True
  then show ?thesis
    using fl_round_nonneg [of y p] assms by simp
next
  case False
  with assms have x: "0 < x" and y: "0 < y" by simp_all
  show ?thesis
  proof (cases "ilog2 x = ilog2 y")
    case True
    let ?q = "(2::rat) powi (ilog2 y - int p + 1)"
    have "x / ?q \<le> y / ?q"
      using assms(2) by (simp add: divide_right_mono)
    then have "rne (x / ?q) \<le> rne (y / ?q)"
      by (rule rne_mono)
    then have "(of_int (rne (x / ?q)) :: rat) * ?q \<le> of_int (rne (y / ?q)) * ?q"
      by (simp add: mult_right_mono)
    then show ?thesis
      by (simp add: fl_round_pos [OF x] fl_round_pos [OF y] True)
  next
    case False
    with ilog2_mono [OF x assms(2)] have "ilog2 x + 1 \<le> ilog2 y" by simp
    then have "(2::rat) powi (ilog2 x + 1) \<le> 2 powi (ilog2 y)"
      by (intro power_int_increasing) simp_all
    with fl_round_binade(2) [OF x assms(3)] fl_round_binade(1) [OF y assms(3)] show ?thesis
      by linarith
  qed
qed

lemma fl_round_error:
  assumes "0 \<le> x"
  shows "\<bar>fl_round p x - x\<bar> \<le> x * 2 powi (- int p)"
proof (cases "x = 0")
  case True
  then show ?thesis by simp
next
  case False
  with assms have x: "0 < x" by simp
  let ?e = "ilog2 x"
  let ?q = "(2::rat) powi (?e - int p + 1)"
  have q: "0 < ?q" by simp
  have "fl_round p x - x = (of_int (rne (x / ?q)) - x / ?q) * ?q"
    using q by (simp add: fl_round_pos [OF x] left_diff_distrib)
  then have "\<bar>fl_round p x - x\<bar> = \<bar>of_int (rne (x / ?q)) - x / ?q\<bar> * ?q"
    using q by (simp add: abs_mult)
  also have "\<dots> \<le> 1 / 2 * ?q"
    using rne_error [of "x / ?q"] q by (intro mult_right_mono) simp_all
  also have "1 / 2 * ?q = 2 powi ?e * 2 powi (- int p)"
  proof -
    have "(1 / 2 :: rat) = 2 powi (- 1)" by simp
    then have "1 / 2 * ?q = 2 powi (- 1) * ?q" by simp
    also have "\<dots> = 2 powi ?e * 2 powi (- int p)"
      by (simp only: two_powi_mult) simp
    finally show ?thesis .
  qed
  also have "\<dots> \<le> x * 2 powi (- int p)"
    using ilog2_bounds(1) [OF x] by (intro mult_right_mono) simp_all
  finally show ?thesis .
qed

lemma fl_round_exact:
  assumes "0 < m" "m < 2 ^ p" "0 < p"
  shows "fl_round p (of_int m * 2 powi k) = of_int m * 2 powi k"
proof -
  let ?x = "of_int m * (2::rat) powi k"
  have x: "0 < ?x" using assms(1) by simp
  let ?e = "ilog2 ?x"
  have "?x < 2 powi (int p) * 2 powi k"
  proof -
    have "(of_int m :: rat) < of_int (2 ^ p)"
      using assms(2) by (simp only: of_int_less_iff)
    then show ?thesis by simp
  qed
  then have "?x < 2 powi (int p + k)"
    by (simp only: two_powi_mult)
  with ilog2_bounds(1) [OF x] have "(2::rat) powi ?e < 2 powi (int p + k)"
    by linarith
  then have e: "?e < int p + k"
    by (metis linorder_not_less power_int_increasing one_le_numeral)
  define n where "n = nat (k - ?e + int p - 1)"
  have n: "int n = k - ?e + int p - 1"
    using e by (simp add: n_def)
  have "?x / 2 powi (?e - int p + 1) = of_int m * 2 powi (k - (?e - int p + 1))"
    by (simp add: power_int_diff)
  also have "k - (?e - int p + 1) = int n"
    using n by simp
  also have "of_int m * (2::rat) powi (int n) = of_int (m * 2 ^ n)"
    by simp
  finally have "rne (?x / 2 powi (?e - int p + 1)) = m * 2 ^ n"
    by (simp only: rne_of_int)
  then have "fl_round p ?x = of_int (m * 2 ^ n) * 2 powi (?e - int p + 1)"
    by (simp only: fl_round_pos [OF x])
  also have "\<dots> = of_int m * (2 powi (int n) * 2 powi (?e - int p + 1))"
    by simp
  also have "2 powi (int n) * (2::rat) powi (?e - int p + 1) = 2 powi k"
    unfolding n by (simp only: two_powi_mult) simp
  finally show ?thesis .
qed

lemma fl_round_of_nat:
  assumes "n < 2 ^ p" "0 < p"
  shows "fl_round p (of_nat n) = of_nat n"
proof (cases "n = 0")
  case True
  then show ?thesis by simp
next
  case False
  have "int n < 2 ^ p"
    using assms(1) by (metis of_nat_less_iff of_nat_numeral of_nat_power)
  with fl_round_exact [of "int n" p 0] False assms(2) show ?thesis
    by simp
qed

lemma f32_error: "0 \<le> x \<Longrightarrow> \<bar>f32 x - x\<bar> \<le> x / 16777216"
proof -
  assume "0 \<le> x"
  from fl_round_error [OF this, of 24] have "\<bar>f32 x - x\<bar> \<le> x * 2 powi (- 24)"
    by (simp add: f32_def)
  moreover have "(2::rat) powi (- 24) = 1 / 16777216"
    by (simp add: power_int_minus_divide)
  ultimately show ?thesis by simp
qed

lemma f32_of_nat: "n < 16777216 \<Longrightarrow> f32 (of_nat n) = of_nat n"
proof -
  assume "n < 16777216"
  then have "n < 2 ^ 24" by simp
  then show ?thesis
    unfolding f32_def by (rule fl_round_of_nat) simp
qed

lemma f32_byte: "f32 (unsigned (p :: u8)) = unsigned p"
proof -
  have "unat p < 256"
    using unsigned_less [of p, where 'a = nat] by simp
  then have "unat p < 16777216" by linarith
  then have "f32 (of_nat (unat p)) = of_nat (unat p)"
    by (rule f32_of_nat)
  then show ?thesis
    by simp
qed

subsection \<open>The interpolation of one segment\<close>

text \<open>The value that \<open>interpolate\<close> computes before the cast, with the percentages as
  rational numbers (\<open>interpolate_eq\<close>).\<close>

definition interp_value :: "rat \<Rightarrow> rat \<Rightarrow> rat \<Rightarrow> rat \<Rightarrow> rat \<Rightarrow> rat" where
  "interp_value v v1 P1 v2 P2 = f32 (P1 + f32 (f32 (f32 (v - v1) * (P2 - P1)) / f32 (v2 - v1)))"

text \<open>Linear interpolation between two anchors in exact arithmetic: the straight line through
  \<open>(v1, P1)\<close> and \<open>(v2, P2)\<close>.\<close>

definition line_value :: "rat \<Rightarrow> rat \<Rightarrow> rat \<Rightarrow> rat \<Rightarrow> rat \<Rightarrow> rat" where
  "line_value v v1 P1 v2 P2 = P1 + (v - v1) * (P2 - P1) / (v2 - v1)"

lemma interpolate_eq:
  "interpolate v v1 p1 v2 p2 = to_u8 (interp_value v v1 (unsigned p1) v2 (unsigned p2))"
  by (simp add: interpolate_def interp_value_def)

lemma f32_mono: "0 \<le> x \<Longrightarrow> x \<le> y \<Longrightarrow> f32 x \<le> f32 y"
  by (simp add: f32_def fl_round_mono)

lemma f32_nonneg: "0 \<le> x \<Longrightarrow> 0 \<le> f32 x"
  by (simp add: f32_def fl_round_nonneg)

lemma f32_zero [simp]: "f32 0 = 0"
  by (simp add: f32_def)

lemma interp_value_start: "f32 P1 = P1 \<Longrightarrow> interp_value v1 v1 P1 v2 P2 = P1"
  by (simp add: interp_value_def)

lemma interp_value_mono:
  assumes "v1 \<le> v" "v \<le> w" "v1 < v2" "0 \<le> P1" "P1 \<le> P2"
  shows "interp_value v v1 P1 v2 P2 \<le> interp_value w v1 P1 v2 P2"
proof -
  let ?D = "P2 - P1"
  let ?d = "f32 (v2 - v1)"
  have D: "0 \<le> ?D"
    using assms(5) by simp
  have d: "0 \<le> ?d"
    using assms(3) by (intro f32_nonneg) simp
  have a0: "0 \<le> f32 (v - v1)"
    using assms(1) by (intro f32_nonneg) simp
  have a1: "f32 (v - v1) \<le> f32 (w - v1)"
    using assms(1,2) by (intro f32_mono) simp_all
  have b0: "0 \<le> f32 (v - v1) * ?D"
    using a0 D by (rule mult_nonneg_nonneg)
  have b1: "f32 (v - v1) * ?D \<le> f32 (w - v1) * ?D"
    using a1 D by (rule mult_right_mono)
  have c0: "0 \<le> f32 (f32 (v - v1) * ?D)"
    using b0 by (rule f32_nonneg)
  have c1: "f32 (f32 (v - v1) * ?D) \<le> f32 (f32 (w - v1) * ?D)"
    using b0 b1 by (rule f32_mono)
  have e0: "0 \<le> f32 (f32 (v - v1) * ?D) / ?d"
    using c0 d by (rule divide_nonneg_nonneg)
  have e1: "f32 (f32 (v - v1) * ?D) / ?d \<le> f32 (f32 (w - v1) * ?D) / ?d"
    using c1 d by (rule divide_right_mono)
  have f0: "0 \<le> f32 (f32 (f32 (v - v1) * ?D) / ?d)"
    using e0 by (rule f32_nonneg)
  have f1: "f32 (f32 (f32 (v - v1) * ?D) / ?d) \<le> f32 (f32 (f32 (w - v1) * ?D) / ?d)"
    using e0 e1 by (rule f32_mono)
  have g0: "0 \<le> P1 + f32 (f32 (f32 (v - v1) * ?D) / ?d)"
    using assms(4) f0 by (rule add_nonneg_nonneg)
  have g1: "P1 + f32 (f32 (f32 (v - v1) * ?D) / ?d) \<le> P1 + f32 (f32 (f32 (w - v1) * ?D) / ?d)"
    using f1 by (rule add_left_mono)
  show ?thesis
    unfolding interp_value_def using g0 g1 by (rule f32_mono)
qed

lemma f32_upper:
  assumes "0 \<le> x" "x \<le> y"
  shows "f32 x \<le> y * (1 + 1 / 16777216)"
proof -
  have "f32 x \<le> x + x / 16777216"
    using f32_error [OF assms(1)] by linarith
  also have "\<dots> = x * (1 + 1 / 16777216)"
    by (simp add: algebra_simps)
  also have "\<dots> \<le> y * (1 + 1 / 16777216)"
    using assms(2) by (intro mult_right_mono) simp_all
  finally show ?thesis .
qed

lemma f32_lower:
  assumes "0 \<le> y" "y \<le> x"
  shows "y * (1 - 1 / 16777216) \<le> f32 x"
proof -
  have x: "0 \<le> x" using assms by simp
  have "y * (1 - 1 / 16777216) \<le> x * (1 - 1 / 16777216)"
    using assms(2) by (intro mult_right_mono) simp_all
  also have "\<dots> = x - x / 16777216"
    by (simp add: algebra_simps)
  also have "\<dots> \<le> f32 x"
    using f32_error [OF x] by linarith
  finally show ?thesis .
qed

lemma interp_value_accuracy:
  assumes "v1 \<le> v" "v \<le> v2" "v1 < v2" "f32 (v2 - v1) = v2 - v1" "0 \<le> P1" "P1 \<le> P2" "P2 \<le> 100"
  shows "\<bar>interp_value v v1 P1 v2 P2 - line_value v v1 P1 v2 P2\<bar> \<le> 1 / 32768"
proof -
  define k :: rat where "k = 1 + 1 / 16777216"
  define j :: rat where "j = 1 - 1 / 16777216"
  define A where "A = v - v1"
  define D where "D = P2 - P1"
  define d where "d = v2 - v1"
  define l where "l = A * D / d"
  have k: "1 \<le> k" "0 \<le> k" and j: "j \<le> 1" "0 \<le> j"
    by (simp_all add: k_def j_def)
  have A: "0 \<le> A" "A \<le> d" and D: "0 \<le> D" "D \<le> 100" and d: "0 < d"
    using assms by (simp_all add: A_def D_def d_def)
  have l: "0 \<le> l" "l \<le> D"
  proof -
    show "0 \<le> l" using A D d by (simp add: l_def)
    have "A * D \<le> d * D" using A(2) D(1) by (rule mult_right_mono)
    then show "l \<le> D" using d by (simp add: l_def pos_divide_le_eq mult.commute)
  qed
  define L where "L = P1 + l"
  have L: "0 \<le> L" "L \<le> 100"
    using l assms(5,6,7) by (simp_all add: L_def D_def)
  let ?a = "f32 A"
  let ?b = "f32 (?a * D)"
  let ?c = "f32 (?b / d)"
  let ?F = "f32 (P1 + ?c)"
  have F: "interp_value v v1 P1 v2 P2 = ?F"
    by (simp add: interp_value_def A_def D_def d_def assms(4))
  have Lv: "line_value v v1 P1 v2 P2 = L"
    by (simp add: line_value_def L_def l_def A_def D_def d_def)
  have a0: "0 \<le> ?a" using A(1) by (rule f32_nonneg)
  have b0: "0 \<le> ?b" by (rule f32_nonneg [OF mult_nonneg_nonneg [OF a0 D(1)]])
  have "0 \<le> ?b / d" using b0 d by simp
  then have c0: "0 \<le> ?c" by (rule f32_nonneg)
  \<comment> \<open>upper bounds\<close>
  have au: "?a \<le> A * k"
    using f32_upper [OF A(1) order_refl] by (simp only: k_def)
  have ab0: "0 \<le> ?a * D" using a0 D(1) by (rule mult_nonneg_nonneg)
  have "?a * D \<le> A * k * D" using au D(1) by (rule mult_right_mono)
  from f32_upper [OF ab0 this] have bu: "?b \<le> A * k * D * k"
    by (simp only: k_def)
  have bd0: "0 \<le> ?b / d" using b0 d by simp
  have "?b / d \<le> A * k * D * k / d" using bu d by (simp add: divide_right_mono)
  from f32_upper [OF bd0 this] have cu: "?c \<le> A * k * D * k / d * k"
    by (simp only: k_def)
  have cu': "?c \<le> l * (k * k * k)"
    using cu by (simp add: l_def algebra_simps)
  have "P1 \<le> P1 * (k * k * k)"
  proof -
    have "1 \<le> k * k * k" using k by (simp add: k_def)
    with assms(5) have "P1 * 1 \<le> P1 * (k * k * k)" by (intro mult_left_mono)
    then show ?thesis by simp
  qed
  with cu' have "P1 + ?c \<le> L * (k * k * k)"
    by (simp add: L_def algebra_simps)
  moreover have "0 \<le> P1 + ?c" using assms(5) c0 by simp
  ultimately have Fu: "?F \<le> L * (k * k * k) * k"
    using f32_upper [of "P1 + ?c" "L * (k * k * k)"] by (simp only: k_def)
  have kk: "k * k * k * k \<le> 1 + 5 / 16777216"
    by (simp add: k_def)
  have "L * (k * k * k) * k = L * (k * k * k * k)" by simp
  also have "\<dots> \<le> L * (1 + 5 / 16777216)"
    using kk L(1) by (rule mult_left_mono)
  also have "\<dots> = L + L * (5 / 16777216)" by (simp add: algebra_simps)
  also have "\<dots> \<le> L + 100 * (5 / 16777216)"
    using L(2) by (intro add_left_mono mult_right_mono) simp_all
  finally have up: "?F \<le> L + 1 / 32768"
    using Fu by simp
  \<comment> \<open>lower bounds\<close>
  have Aj0: "0 \<le> A" by (rule A(1))
  have al: "A * j \<le> ?a"
    using f32_lower [OF Aj0 order_refl] by (simp only: j_def)
  have l1: "A * j * D \<le> ?a * D" using al D(1) by (rule mult_right_mono)
  have l10: "0 \<le> A * j * D" using A(1) j(2) D(1) by simp
  from f32_lower [OF l10 l1] have bl: "A * j * D * j \<le> ?b"
    by (simp only: j_def)
  have l2: "A * j * D * j / d \<le> ?b / d" using bl d by (simp add: divide_right_mono)
  have l20: "0 \<le> A * j * D * j / d" using A(1) j(2) D(1) d by simp
  from f32_lower [OF l20 l2] have cl: "A * j * D * j / d * j \<le> ?c"
    by (simp only: j_def)
  have cl': "l * (j * j * j) \<le> ?c"
    using cl by (simp add: l_def algebra_simps)
  have "P1 * (j * j * j) \<le> P1"
  proof -
    have "j * j * j \<le> 1" using j by (simp add: j_def)
    with assms(5) have "P1 * (j * j * j) \<le> P1 * 1" by (intro mult_left_mono)
    then show ?thesis by simp
  qed
  with cl' have lo1: "L * (j * j * j) \<le> P1 + ?c"
    by (simp add: L_def algebra_simps)
  have lo0: "0 \<le> L * (j * j * j)" using L(1) j(2) by simp
  from f32_lower [OF lo0 lo1] have Fl: "L * (j * j * j) * j \<le> ?F"
    by (simp only: j_def)
  have jj: "1 - 4 / 16777216 \<le> j * j * j * j"
    by (simp add: j_def)
  have "L - 1 / 32768 \<le> L - 100 * (4 / 16777216)" by simp
  also have "\<dots> \<le> L - L * (4 / 16777216)"
    using L(2) by (intro diff_left_mono mult_right_mono) simp_all
  also have "\<dots> = L * (1 - 4 / 16777216)" by (simp add: algebra_simps)
  also have "\<dots> \<le> L * (j * j * j * j)"
    using jj L(1) by (rule mult_left_mono)
  also have "\<dots> = L * (j * j * j) * j" by simp
  finally have low: "L - 1 / 32768 \<le> ?F"
    using Fl by simp
  show ?thesis
    unfolding F Lv using up low by linarith
qed

subsection \<open>The table and the loop over its segments\<close>

text \<open>What the proofs need of a table: in every segment the voltages increase strictly, the
  percentages do not decrease and are at most 100, the difference of the two voltages is a
  \<open>float\<close>, and the interpolation at the upper voltage gives the upper percentage. The
  table of the firmware has these properties (\<open>table_ok_batt_table\<close>, by evaluation).\<close>

definition segment_ok :: "rat \<times> u8 \<Rightarrow> rat \<times> u8 \<Rightarrow> bool" where
  "segment_ok a b \<longleftrightarrow>
     fst a < fst b \<and> snd a \<le> snd b \<and> snd b \<le> 100 \<and> f32 (fst b - fst a) = fst b - fst a \<and>
     interp_value (fst b) (fst a) (unsigned (snd a)) (fst b) (unsigned (snd b)) = unsigned (snd b)"

definition table_ok :: "(rat \<times> u8) list \<Rightarrow> bool" where
  "table_ok tbl \<longleftrightarrow>
     2 \<le> length tbl \<and> list_all (\<lambda>i. segment_ok (tbl ! i) (tbl ! (i + 1))) [0..<length tbl - 1]"

text \<open>The percentage that segment \<open>i\<close> of the table gives to a voltage.\<close>

definition segment_value :: "(rat \<times> u8) list \<Rightarrow> nat \<Rightarrow> rat \<Rightarrow> u8" where
  "segment_value tbl i v =
     interpolate v (fst (tbl ! i)) (snd (tbl ! i)) (fst (tbl ! (i + 1))) (snd (tbl ! (i + 1)))"

lemma table_segment: "table_ok tbl \<Longrightarrow> i < length tbl - 1 \<Longrightarrow> segment_ok (tbl ! i) (tbl ! (i + 1))"
  by (simp add: table_ok_def list_all_iff)

lemma table_voltage_strict:
  assumes "table_ok tbl" "j < length tbl" "i < j"
  shows "fst (tbl ! i) < fst (tbl ! j)"
  using assms(2,3)
proof (induction j)
  case 0
  then show ?case by simp
next
  case (Suc j)
  have step: "fst (tbl ! j) < fst (tbl ! Suc j)"
    using table_segment [OF assms(1), of j] Suc.prems by (simp add: segment_ok_def)
  show ?case
  proof (cases "i = j")
    case True
    with step show ?thesis by simp
  next
    case False
    with Suc have "fst (tbl ! i) < fst (tbl ! j)" by simp
    with step show ?thesis by simp
  qed
qed

lemma table_voltage_mono:
  assumes "table_ok tbl" "j < length tbl" "i \<le> j"
  shows "fst (tbl ! i) \<le> fst (tbl ! j)"
  using table_voltage_strict [OF assms(1,2), of i] assms(3)
  by (cases "i = j") simp_all

lemma table_percent_mono:
  assumes "table_ok tbl" "j < length tbl" "i \<le> j"
  shows "snd (tbl ! i) \<le> snd (tbl ! j)"
  using assms(2,3)
proof (induction j)
  case 0
  then show ?case by simp
next
  case (Suc j)
  have step: "snd (tbl ! j) \<le> snd (tbl ! Suc j)"
    using table_segment [OF assms(1), of j] Suc.prems by (simp add: segment_ok_def)
  show ?case
  proof (cases "i = Suc j")
    case True
    then show ?thesis by simp
  next
    case False
    with Suc have "snd (tbl ! i) \<le> snd (tbl ! j)" by simp
    with step show ?thesis by simp
  qed
qed

lemma segment_okD:
  assumes "segment_ok a b"
  shows "fst a < fst b" "snd a \<le> snd b" "snd b \<le> 100" "f32 (fst b - fst a) = fst b - fst a"
    "interp_value (fst b) (fst a) (unsigned (snd a)) (fst b) (unsigned (snd b)) = unsigned (snd b)"
  using assms by (simp_all add: segment_ok_def)

lemma unsigned_le_rat: "(p :: u8) \<le> q \<Longrightarrow> (unsigned p :: rat) \<le> unsigned q"
proof -
  assume "p \<le> q"
  then have "uint p \<le> uint q" by (simp add: word_le_def)
  then have "(of_int (uint p) :: rat) \<le> of_int (uint q)" by (simp only: of_int_le_iff)
  then show ?thesis by simp
qed

lemma unsigned_nonneg_rat: "0 \<le> (unsigned (p :: u8) :: rat)"
  by (metis of_nat_0_le_iff of_nat_unat)

lemma to_u8_unsigned: "to_u8 (unsigned (p :: u8)) = p"
proof -
  have "to_u8 (of_int (uint p)) = p"
    unfolding to_u8_def by (simp only: floor_of_int) simp
  then show ?thesis by simp
qed

lemma segment_range:
  assumes "segment_ok (tbl ! i) (tbl ! (i + 1))" "fst (tbl ! i) \<le> v" "v \<le> fst (tbl ! (i + 1))"
  shows "unsigned (snd (tbl ! i)) \<le> interp_value v (fst (tbl ! i)) (unsigned (snd (tbl ! i)))
            (fst (tbl ! (i + 1))) (unsigned (snd (tbl ! (i + 1))))"
    and "interp_value v (fst (tbl ! i)) (unsigned (snd (tbl ! i)))
            (fst (tbl ! (i + 1))) (unsigned (snd (tbl ! (i + 1)))) \<le> unsigned (snd (tbl ! (i + 1)))"
proof -
  note ok = segment_okD [OF assms(1)]
  let ?v1 = "fst (tbl ! i)" and ?v2 = "fst (tbl ! (i + 1))"
  let ?P1 = "unsigned (snd (tbl ! i)) :: rat" and ?P2 = "unsigned (snd (tbl ! (i + 1))) :: rat"
  have P: "0 \<le> ?P1" "?P1 \<le> ?P2"
    using ok(2) by (simp_all add: unsigned_le_rat unsigned_nonneg_rat)
  have "interp_value ?v1 ?v1 ?P1 ?v2 ?P2 \<le> interp_value v ?v1 ?P1 ?v2 ?P2"
    using assms(2) ok(1) P by (intro interp_value_mono) simp_all
  then show "?P1 \<le> interp_value v ?v1 ?P1 ?v2 ?P2"
    by (simp add: interp_value_start f32_byte)
  have "interp_value v ?v1 ?P1 ?v2 ?P2 \<le> interp_value ?v2 ?v1 ?P1 ?v2 ?P2"
    using assms(2,3) ok(1) P by (intro interp_value_mono) simp_all
  then show "interp_value v ?v1 ?P1 ?v2 ?P2 \<le> ?P2"
    by (simp only: ok(5))
qed

lemma uint_to_u8: "0 \<le> x \<Longrightarrow> x < 256 \<Longrightarrow> uint (to_u8 x) = \<lfloor>x\<rfloor>"
proof -
  assume a: "0 \<le> x" "x < 256"
  then have "0 \<le> \<lfloor>x\<rfloor>" "\<lfloor>x\<rfloor> < 256"
    by (simp_all add: floor_less_iff)
  then show ?thesis
    by (simp add: to_u8_def uint_word_of_int)
qed

lemma unsigned_rat_less: "(unsigned (p :: u8) :: rat) < 256"
proof -
  have "uint p < 256" using unsigned_less [of p, where 'a = int] by simp
  then have "(of_int (uint p) :: rat) < of_int 256" by (simp only: of_int_less_iff)
  then show ?thesis by simp
qed

lemma segment_value_floor:
  assumes "segment_ok (tbl ! i) (tbl ! (i + 1))" "fst (tbl ! i) \<le> v" "v \<le> fst (tbl ! (i + 1))"
  shows "uint (segment_value tbl i v) =
     \<lfloor>interp_value v (fst (tbl ! i)) (unsigned (snd (tbl ! i)))
         (fst (tbl ! (i + 1))) (unsigned (snd (tbl ! (i + 1))))\<rfloor>"
proof -
  note r = segment_range [OF assms]
  let ?F = "interp_value v (fst (tbl ! i)) (unsigned (snd (tbl ! i)))
         (fst (tbl ! (i + 1))) (unsigned (snd (tbl ! (i + 1))))"
  have "0 \<le> ?F"
    using r(1) unsigned_nonneg_rat [of "snd (tbl ! i)"] by linarith
  moreover have "?F < 256"
    using r(2) unsigned_rat_less [of "snd (tbl ! (i + 1))"] by linarith
  ultimately show ?thesis
    by (simp add: segment_value_def interpolate_eq uint_to_u8)
qed

lemma segment_value_bounds:
  assumes "segment_ok (tbl ! i) (tbl ! (i + 1))" "fst (tbl ! i) \<le> v" "v \<le> fst (tbl ! (i + 1))"
  shows "snd (tbl ! i) \<le> segment_value tbl i v" and "segment_value tbl i v \<le> snd (tbl ! (i + 1))"
proof -
  note r = segment_range [OF assms] and f = segment_value_floor [OF assms]
  have "(of_int (uint (snd (tbl ! i))) :: rat) \<le> interp_value v (fst (tbl ! i)) (unsigned (snd (tbl ! i)))
         (fst (tbl ! (i + 1))) (unsigned (snd (tbl ! (i + 1))))"
    using r(1) by simp
  then have "uint (snd (tbl ! i)) \<le> uint (segment_value tbl i v)"
    unfolding f by (simp only: le_floor_iff)
  then show "snd (tbl ! i) \<le> segment_value tbl i v"
    by (simp add: word_le_def)
  have "interp_value v (fst (tbl ! i)) (unsigned (snd (tbl ! i)))
         (fst (tbl ! (i + 1))) (unsigned (snd (tbl ! (i + 1)))) \<le> of_int (uint (snd (tbl ! (i + 1))))"
    using r(2) by simp
  then have "uint (segment_value tbl i v) \<le> uint (snd (tbl ! (i + 1)))"
    unfolding f by (metis floor_mono floor_of_int)
  then show "segment_value tbl i v \<le> snd (tbl ! (i + 1))"
    by (simp add: word_le_def)
qed

lemma segment_value_mono:
  assumes "segment_ok (tbl ! i) (tbl ! (i + 1))" "fst (tbl ! i) \<le> v" "v \<le> w"
    "w \<le> fst (tbl ! (i + 1))"
  shows "segment_value tbl i v \<le> segment_value tbl i w"
proof -
  note ok = segment_okD [OF assms(1)]
  have "interp_value v (fst (tbl ! i)) (unsigned (snd (tbl ! i)))
         (fst (tbl ! (i + 1))) (unsigned (snd (tbl ! (i + 1))))
      \<le> interp_value w (fst (tbl ! i)) (unsigned (snd (tbl ! i)))
         (fst (tbl ! (i + 1))) (unsigned (snd (tbl ! (i + 1))))"
    using assms(2,3) ok(1,2)
    by (intro interp_value_mono) (simp_all add: unsigned_le_rat unsigned_nonneg_rat)
  then have "uint (segment_value tbl i v) \<le> uint (segment_value tbl i w)"
    using segment_value_floor [OF assms(1), of v] segment_value_floor [OF assms(1), of w] assms
    by (simp add: floor_mono)
  then show ?thesis
    by (simp add: word_le_def)
qed

declare batt_loop.simps [simp del]

lemma segment_value_start:
  "segment_value tbl i (fst (tbl ! i)) = snd (tbl ! i)"
  by (simp add: segment_value_def interpolate_eq interp_value_start f32_byte to_u8_unsigned)

lemma segment_value_end:
  "segment_ok (tbl ! i) (tbl ! (i + 1)) \<Longrightarrow>
   segment_value tbl i (fst (tbl ! (i + 1))) = snd (tbl ! (i + 1))"
  by (simp add: segment_value_def interpolate_eq segment_okD(5) to_u8_unsigned)

lemma batt_loop_segment:
  assumes "table_ok tbl"
  shows "i < length tbl - 1 \<Longrightarrow> fst (tbl ! i) \<le> v \<Longrightarrow> v \<le> fst (tbl ! (length tbl - 1)) \<Longrightarrow>
     \<exists>k. i \<le> k \<and> k < length tbl - 1 \<and> fst (tbl ! k) \<le> v \<and> v \<le> fst (tbl ! (k + 1))
         \<and> batt_loop tbl v i p = segment_value tbl k v"
proof (induction tbl v i p rule: batt_loop.induct)
  case (1 tbl v i p)
  show ?case
  proof (cases "v \<le> fst (tbl ! (i + 1))")
    case True
    with "1.prems" have "batt_loop tbl v i p = segment_value tbl i v"
      by (simp add: batt_loop.simps [of tbl v i p] segment_value_def)
    with True "1.prems" show ?thesis
      by (intro exI [of _ i]) simp
  next
    case False
    then have lt: "fst (tbl ! (i + 1)) < v" by simp
    have "i + 1 \<noteq> length tbl - 1"
      using lt "1.prems"(3) by auto
    with "1.prems"(1) have i1: "i + 1 < length tbl - 1" by simp
    from "1.IH" [OF "1.prems"(1) _ i1 _ "1.prems"(3)] False lt
    obtain k where k: "i + 1 \<le> k" "k < length tbl - 1" "fst (tbl ! k) \<le> v"
      "v \<le> fst (tbl ! (k + 1))" "batt_loop tbl v (i + 1) p = segment_value tbl k v"
      by auto
    have "batt_loop tbl v i p = batt_loop tbl v (i + 1) p"
      using False "1.prems"(1) by (simp add: batt_loop.simps [of tbl v i p])
    with k show ?thesis
      by (intro exI [of _ k]) simp
  qed
qed

lemma segment_value_unique_less:
  assumes "table_ok tbl" "i < length tbl - 1" "k < i"
    "v \<le> fst (tbl ! (k + 1))" "fst (tbl ! i) \<le> v"
  shows "segment_value tbl k v = segment_value tbl i v"
proof -
  have le: "fst (tbl ! (k + 1)) \<le> fst (tbl ! i)"
    using assms(2,3) by (intro table_voltage_mono [OF assms(1)]) simp_all
  with assms(4,5) have v: "v = fst (tbl ! (k + 1))" and e: "fst (tbl ! (k + 1)) = fst (tbl ! i)"
    by simp_all
  have "k + 1 = i"
  proof (rule ccontr)
    assume "k + 1 \<noteq> i"
    with assms(3) have "k + 1 < i" by simp
    then have "fst (tbl ! (k + 1)) < fst (tbl ! i)"
      using assms(2) by (intro table_voltage_strict [OF assms(1)]) simp_all
    with e show False by simp
  qed
  moreover have "segment_ok (tbl ! k) (tbl ! (k + 1))"
    using assms(2,3) by (intro table_segment [OF assms(1)]) simp
  ultimately show ?thesis
    using segment_value_end [of tbl k] segment_value_start [of tbl i] by (simp add: v)
qed

lemma segment_value_unique:
  assumes "table_ok tbl" "i < length tbl - 1" "k < length tbl - 1"
    "fst (tbl ! k) \<le> v" "v \<le> fst (tbl ! (k + 1))" "fst (tbl ! i) \<le> v" "v \<le> fst (tbl ! (i + 1))"
  shows "segment_value tbl k v = segment_value tbl i v"
proof -
  consider "k < i" | "k = i" | "i < k" by linarith
  then show ?thesis
  proof cases
    case 1
    then show ?thesis
      using segment_value_unique_less [OF assms(1,2) _ assms(5,6)] by simp
  next
    case 2
    then show ?thesis by simp
  next
    case 3
    then show ?thesis
      using segment_value_unique_less [OF assms(1,3) _ assms(7,4)] by simp
  qed
qed

lemma percent_segment:
  assumes "table_ok tbl" "i < length tbl - 1" "fst (tbl ! i) \<le> v" "v \<le> fst (tbl ! (i + 1))"
  shows "percent_of_voltage tbl v = segment_value tbl i v"
proof -
  have len: "0 < length tbl - 1"
    using assms(2) by simp
  have "fst (tbl ! 0) \<le> fst (tbl ! i)"
    using assms(2) by (intro table_voltage_mono [OF assms(1)]) simp_all
  with assms(3) have lo: "fst (tbl ! 0) \<le> v"
    by simp
  have "fst (tbl ! (i + 1)) \<le> fst (tbl ! (length tbl - 1))"
    using assms(2) by (intro table_voltage_mono [OF assms(1)]) simp_all
  with assms(4) have hi: "v \<le> fst (tbl ! (length tbl - 1))"
    by simp
  from batt_loop_segment [OF assms(1) len, of v 0] lo hi
  obtain k where k: "k < length tbl - 1" "fst (tbl ! k) \<le> v" "v \<le> fst (tbl ! (k + 1))"
    "batt_loop tbl v 0 0 = segment_value tbl k v"
    by auto
  have "percent_of_voltage tbl v = batt_loop tbl v 0 0"
    using lo hi by (simp add: percent_of_voltage_def)
  also have "\<dots> = segment_value tbl i v"
    using segment_value_unique [OF assms(1,2) k(1,2,3) assms(3,4)] k(4) by simp
  finally show ?thesis .
qed

lemma find_segment:
  assumes "table_ok tbl" "fst (tbl ! 0) \<le> v" "v \<le> fst (tbl ! (length tbl - 1))"
  shows "\<exists>i < length tbl - 1. fst (tbl ! i) \<le> v \<and> v \<le> fst (tbl ! (i + 1))"
proof -
  have len: "0 < length tbl - 1"
    using assms(1) by (simp add: table_ok_def)
  from batt_loop_segment [OF assms(1) len, of v 0] assms(2,3) show ?thesis
    by auto
qed

lemma percent_anchor:
  assumes "table_ok tbl" "i < length tbl"
  shows "percent_of_voltage tbl (fst (tbl ! i)) = snd (tbl ! i)"
proof (cases "i < length tbl - 1")
  case True
  have "fst (tbl ! i) \<le> fst (tbl ! (i + 1))"
    using table_segment [OF assms(1) True] by (simp add: segment_ok_def)
  from percent_segment [OF assms(1) True _ this] show ?thesis
    by (simp add: segment_value_start)
next
  case False
  have len: "2 \<le> length tbl"
    using assms(1) by (simp add: table_ok_def)
  with False assms(2) have i: "i = (length tbl - 2) + 1" by simp
  have j: "length tbl - 2 < length tbl - 1"
    using len by simp
  have "fst (tbl ! (length tbl - 2)) \<le> fst (tbl ! (length tbl - 2 + 1))"
    using table_segment [OF assms(1) j] by (simp add: segment_ok_def)
  from percent_segment [OF assms(1) j this]
    segment_value_end [OF table_segment [OF assms(1) j]]
  show ?thesis
    unfolding i by simp
qed

lemma percent_range:
  assumes "table_ok tbl"
  shows "snd (tbl ! 0) \<le> percent_of_voltage tbl v"
    and "percent_of_voltage tbl v \<le> snd (tbl ! (length tbl - 1))"
proof -
  have len: "2 \<le> length tbl"
    using assms(1) by (simp add: table_ok_def)
  have ends: "snd (tbl ! 0) \<le> snd (tbl ! (length tbl - 1))"
    using len by (intro table_percent_mono [OF assms]) simp_all
  have "snd (tbl ! 0) \<le> percent_of_voltage tbl v
      \<and> percent_of_voltage tbl v \<le> snd (tbl ! (length tbl - 1))"
  proof (cases "v < fst (tbl ! 0) \<or> fst (tbl ! (length tbl - 1)) < v")
    case True
    then show ?thesis
      using ends by (auto simp add: percent_of_voltage_def)
  next
    case False
    then have "fst (tbl ! 0) \<le> v" "v \<le> fst (tbl ! (length tbl - 1))" by auto
    from find_segment [OF assms this] obtain i where
      i: "i < length tbl - 1" "fst (tbl ! i) \<le> v" "v \<le> fst (tbl ! (i + 1))" by blast
    note b = segment_value_bounds [OF table_segment [OF assms i(1)] i(2,3)]
    have "snd (tbl ! 0) \<le> snd (tbl ! i)"
      using i(1) by (intro table_percent_mono [OF assms]) simp_all
    moreover have "snd (tbl ! (i + 1)) \<le> snd (tbl ! (length tbl - 1))"
      using i(1) len by (intro table_percent_mono [OF assms]) simp_all
    ultimately show ?thesis
      using b unfolding percent_segment [OF assms i] by (blast intro: order_trans)
  qed
  then show "snd (tbl ! 0) \<le> percent_of_voltage tbl v"
    and "percent_of_voltage tbl v \<le> snd (tbl ! (length tbl - 1))"
    by simp_all
qed

lemma percent_mono:
  assumes "table_ok tbl" "v \<le> w"
  shows "percent_of_voltage tbl v \<le> percent_of_voltage tbl w"
proof -
  let ?lo = "fst (tbl ! 0)" and ?hi = "fst (tbl ! (length tbl - 1))"
  consider "v < ?lo" | "?hi < w" | "?lo \<le> v" "w \<le> ?hi" by linarith
  then show ?thesis
  proof cases
    case 1
    then have "percent_of_voltage tbl v = snd (tbl ! 0)"
      by (simp add: percent_of_voltage_def)
    then show ?thesis
      using percent_range(1) [OF assms(1), of w] by simp
  next
    case 2
    have len: "2 \<le> length tbl"
      using assms(1) by (simp add: table_ok_def)
    have "?lo \<le> ?hi"
      using len by (intro table_voltage_mono [OF assms(1)]) simp_all
    with 2 have "\<not> w < ?lo" by simp
    with 2 have "percent_of_voltage tbl w = snd (tbl ! (length tbl - 1))"
      by (simp add: percent_of_voltage_def)
    then show ?thesis
      using percent_range(2) [OF assms(1), of v] by simp
  next
    case 3
    with assms(2) have v: "?lo \<le> v" "v \<le> ?hi" and w: "?lo \<le> w" "w \<le> ?hi" by simp_all
    from find_segment [OF assms(1) v] obtain i where
      i: "i < length tbl - 1" "fst (tbl ! i) \<le> v" "v \<le> fst (tbl ! (i + 1))" by blast
    from find_segment [OF assms(1) w] obtain j where
      j: "j < length tbl - 1" "fst (tbl ! j) \<le> w" "w \<le> fst (tbl ! (j + 1))" by blast
    note pv = percent_segment [OF assms(1) i] and pw = percent_segment [OF assms(1) j]
    consider "i < j" | "i = j" | "j < i" by linarith
    then show ?thesis
    proof cases
      case 1
      have "segment_value tbl i v \<le> snd (tbl ! (i + 1))"
        by (rule segment_value_bounds(2) [OF table_segment [OF assms(1) i(1)] i(2,3)])
      also have "\<dots> \<le> snd (tbl ! j)"
        using 1 j(1) by (intro table_percent_mono [OF assms(1)]) simp_all
      also have "\<dots> \<le> segment_value tbl j w"
        by (rule segment_value_bounds(1) [OF table_segment [OF assms(1) j(1)] j(2,3)])
      finally show ?thesis
        by (simp add: pv pw)
    next
      case 2
      with i j assms(2) show ?thesis
        using segment_value_mono [OF table_segment [OF assms(1) i(1)] i(2) assms(2)]
        by (simp add: pv pw)
    next
      case 3
      have "fst (tbl ! (j + 1)) \<le> fst (tbl ! i)"
        using 3 i(1) by (intro table_voltage_mono [OF assms(1)]) simp_all
      with i(2) j(3) assms(2) have "v = w" by simp
      then show ?thesis by simp
    qed
  qed
qed

lemma percent_line:
  assumes "table_ok tbl" "i < length tbl - 1" "fst (tbl ! i) \<le> v" "v \<le> fst (tbl ! (i + 1))"
  shows "\<bar>of_int (uint (percent_of_voltage tbl v))
          - line_value v (fst (tbl ! i)) (unsigned (snd (tbl ! i)))
              (fst (tbl ! (i + 1))) (unsigned (snd (tbl ! (i + 1))))\<bar> < 1 + 1 / 32768"
    and "of_int (uint (percent_of_voltage tbl v))
          \<le> line_value v (fst (tbl ! i)) (unsigned (snd (tbl ! i)))
              (fst (tbl ! (i + 1))) (unsigned (snd (tbl ! (i + 1)))) + 1 / 32768"
proof -
  note ok = table_segment [OF assms(1,2)]
  note okD = segment_okD [OF ok]
  let ?F = "interp_value v (fst (tbl ! i)) (unsigned (snd (tbl ! i)))
              (fst (tbl ! (i + 1))) (unsigned (snd (tbl ! (i + 1))))"
  let ?L = "line_value v (fst (tbl ! i)) (unsigned (snd (tbl ! i)))
              (fst (tbl ! (i + 1))) (unsigned (snd (tbl ! (i + 1))))"
  have P2: "(unsigned (snd (tbl ! (i + 1))) :: rat) \<le> 100"
    using unsigned_le_rat [OF okD(3)] by simp
  have acc: "\<bar>?F - ?L\<bar> \<le> 1 / 32768"
    using assms(3,4) okD(1,4) unsigned_nonneg_rat unsigned_le_rat [OF okD(2)] P2
    by (intro interp_value_accuracy)
  have fl: "uint (percent_of_voltage tbl v) = \<lfloor>?F\<rfloor>"
    using segment_value_floor [OF ok assms(3,4)] by (simp add: percent_segment [OF assms])
  have "of_int \<lfloor>?F\<rfloor> \<le> ?F" "?F < of_int \<lfloor>?F\<rfloor> + 1"
    by linarith+
  with acc show "\<bar>of_int (uint (percent_of_voltage tbl v)) - ?L\<bar> < 1 + 1 / 32768"
    and "of_int (uint (percent_of_voltage tbl v)) \<le> ?L + 1 / 32768"
    unfolding fl by linarith+
qed

lemma table_ok_batt_table: "table_ok batt_table"
  by code_simp

subsection \<open>The percentage of a voltage\<close>

lemma length_batt_table: "length batt_table = 21"
  by (simp add: batt_table_def)

lemma batt_table_ends:
  "batt_table ! 0 = (float_lit (327 / 100), 0)" "batt_table ! 20 = (float_lit (420 / 100), 100)"
  by (simp_all add: batt_table_def)

text \<open>
  Claim C4. For every voltage: below the lowest anchor of the table (the \<open>float\<close> 3.27)
  the percentage is 0; above the highest anchor (the \<open>float\<close> 4.20) it is 100; at the
  voltage of an anchor it is the percentage of that anchor; between two adjacent anchors it
  is the linear interpolation of their percentages as the code computes it, in
  \<open>float\<close> and cut to an integer: the \<open>float\<close> value is within \<open>1 / 32768\<close> of
  the straight line through the two anchors, and the percentage is its integer part, between
  the percentages of the two anchors; and the percentage is monotonic non-decreasing in the
  voltage.
\<close>

theorem battery_curve:
  "(voltage < float_lit (327 / 100) \<longrightarrow> percent_of_voltage batt_table voltage = 0)
   \<and> (float_lit (420 / 100) < voltage \<longrightarrow> percent_of_voltage batt_table voltage = 100)
   \<and> (\<forall>i<length batt_table.
         percent_of_voltage batt_table (fst (batt_table ! i)) = snd (batt_table ! i))
   \<and> (\<forall>i<length batt_table - 1.
         fst (batt_table ! i) \<le> voltage \<and> voltage \<le> fst (batt_table ! (i + 1)) \<longrightarrow>
         percent_of_voltage batt_table voltage
           = interpolate voltage (fst (batt_table ! i)) (snd (batt_table ! i))
               (fst (batt_table ! (i + 1))) (snd (batt_table ! (i + 1)))
         \<and> uint (percent_of_voltage batt_table voltage)
           = \<lfloor>interp_value voltage (fst (batt_table ! i)) (unsigned (snd (batt_table ! i)))
               (fst (batt_table ! (i + 1))) (unsigned (snd (batt_table ! (i + 1))))\<rfloor>
         \<and> \<bar>interp_value voltage (fst (batt_table ! i)) (unsigned (snd (batt_table ! i)))
               (fst (batt_table ! (i + 1))) (unsigned (snd (batt_table ! (i + 1))))
            - line_value voltage (fst (batt_table ! i)) (unsigned (snd (batt_table ! i)))
               (fst (batt_table ! (i + 1))) (unsigned (snd (batt_table ! (i + 1))))\<bar> \<le> 1 / 32768
         \<and> snd (batt_table ! i) \<le> percent_of_voltage batt_table voltage
         \<and> percent_of_voltage batt_table voltage \<le> snd (batt_table ! (i + 1)))
   \<and> (voltage \<le> w \<longrightarrow>
         percent_of_voltage batt_table voltage \<le> percent_of_voltage batt_table w)"
proof -
  note ok = table_ok_batt_table
  have below: "percent_of_voltage batt_table voltage = 0" if "voltage < float_lit (327 / 100)"
    using that by (simp add: percent_of_voltage_def batt_table_ends)
  have "fst (batt_table ! 0) \<le> fst (batt_table ! 20)"
    by (intro table_voltage_mono [OF ok]) (simp_all add: length_batt_table)
  then have ends: "float_lit (327 / 100) \<le> float_lit (420 / 100)"
    by (simp add: batt_table_ends)
  have above: "percent_of_voltage batt_table voltage = 100" if "float_lit (420 / 100) < voltage"
    using that ends by (simp add: percent_of_voltage_def batt_table_ends length_batt_table)
  have anchors: "percent_of_voltage batt_table (fst (batt_table ! i)) = snd (batt_table ! i)"
    if "i < length batt_table" for i
    using that by (rule percent_anchor [OF ok])
  have between:
    "percent_of_voltage batt_table voltage
       = interpolate voltage (fst (batt_table ! i)) (snd (batt_table ! i))
           (fst (batt_table ! (i + 1))) (snd (batt_table ! (i + 1)))
     \<and> uint (percent_of_voltage batt_table voltage)
       = \<lfloor>interp_value voltage (fst (batt_table ! i)) (unsigned (snd (batt_table ! i)))
           (fst (batt_table ! (i + 1))) (unsigned (snd (batt_table ! (i + 1))))\<rfloor>
     \<and> \<bar>interp_value voltage (fst (batt_table ! i)) (unsigned (snd (batt_table ! i)))
           (fst (batt_table ! (i + 1))) (unsigned (snd (batt_table ! (i + 1))))
        - line_value voltage (fst (batt_table ! i)) (unsigned (snd (batt_table ! i)))
           (fst (batt_table ! (i + 1))) (unsigned (snd (batt_table ! (i + 1))))\<bar> \<le> 1 / 32768
     \<and> snd (batt_table ! i) \<le> percent_of_voltage batt_table voltage
     \<and> percent_of_voltage batt_table voltage \<le> snd (batt_table ! (i + 1))"
    if i: "i < length batt_table - 1"
      and v: "fst (batt_table ! i) \<le> voltage" "voltage \<le> fst (batt_table ! (i + 1))" for i
  proof -
    note seg = table_segment [OF ok i]
    note okD = segment_okD [OF seg]
    note p = percent_segment [OF ok i v]
    have P2: "(unsigned (snd (batt_table ! (i + 1))) :: rat) \<le> 100"
      using unsigned_le_rat [OF okD(3)] by simp
    have acc: "\<bar>interp_value voltage (fst (batt_table ! i)) (unsigned (snd (batt_table ! i)))
           (fst (batt_table ! (i + 1))) (unsigned (snd (batt_table ! (i + 1))))
        - line_value voltage (fst (batt_table ! i)) (unsigned (snd (batt_table ! i)))
           (fst (batt_table ! (i + 1))) (unsigned (snd (batt_table ! (i + 1))))\<bar> \<le> 1 / 32768"
      using v okD(1,4) unsigned_nonneg_rat unsigned_le_rat [OF okD(2)] P2
      by (intro interp_value_accuracy)
    show ?thesis
      using segment_value_floor [OF seg v] segment_value_bounds [OF seg v] acc
      unfolding p by (simp add: segment_value_def)
  qed
  have mono: "percent_of_voltage batt_table voltage \<le> percent_of_voltage batt_table w"
    if "voltage \<le> w"
    using ok that by (rule percent_mono)
  from below above anchors between mono show ?thesis
    by blast
qed

theorem battery_curve_witness:
  "percent_of_voltage batt_table 3 = 0
   \<and> percent_of_voltage batt_table 5 = 100
   \<and> percent_of_voltage batt_table (float_lit (371 / 100)) = 15
   \<and> percent_of_voltage batt_table (18 / 5) = 4
   \<and> \<bar>interp_value (18 / 5) (float_lit (327 / 100)) 0 (float_lit (361 / 100)) 5
        - line_value (18 / 5) (float_lit (327 / 100)) 0 (float_lit (361 / 100)) 5\<bar> \<le> 1 / 32768
   \<and> percent_of_voltage batt_table (18 / 5) \<le> percent_of_voltage batt_table (37 / 10)"
proof -
  have lo: "(3 :: rat) < float_lit (327 / 100)" and hi: "float_lit (420 / 100) < (5 :: rat)"
    by code_simp+
  have a3: "batt_table ! 3 = (float_lit (371 / 100), 15)"
    and a1: "batt_table ! Suc 0 = (float_lit (361 / 100), 5)"
    by (simp_all add: batt_table_def)
  have seg: "float_lit (327 / 100) \<le> (18 / 5 :: rat)" "(18 / 5 :: rat) \<le> float_lit (361 / 100)"
    by code_simp+
  have val: "interpolate (18 / 5) (float_lit (327 / 100)) 0 (float_lit (361 / 100)) 5 = 4"
    by code_simp
  have le: "(18 / 5 :: rat) \<le> 37 / 10"
    by simp
  note c1 = battery_curve [of 3 3] and c2 = battery_curve [of 5 5]
    and c3 = battery_curve [of "18 / 5" "37 / 10"]
  from c1 lo have "percent_of_voltage batt_table 3 = 0"
    by blast
  moreover from c2 hi have "percent_of_voltage batt_table 5 = 100"
    by blast
  moreover from c3 have "\<forall>i<length batt_table.
      percent_of_voltage batt_table (fst (batt_table ! i)) = snd (batt_table ! i)"
    by blast
  then have "percent_of_voltage batt_table (fst (batt_table ! 3)) = snd (batt_table ! 3)"
    by (simp add: length_batt_table)
  then have "percent_of_voltage batt_table (float_lit (371 / 100)) = 15"
    by (simp add: a3)
  moreover from c3 have "\<forall>i<length batt_table - 1.
         fst (batt_table ! i) \<le> 18 / 5 \<and> 18 / 5 \<le> fst (batt_table ! (i + 1)) \<longrightarrow>
         percent_of_voltage batt_table (18 / 5)
           = interpolate (18 / 5) (fst (batt_table ! i)) (snd (batt_table ! i))
               (fst (batt_table ! (i + 1))) (snd (batt_table ! (i + 1)))
         \<and> \<bar>interp_value (18 / 5) (fst (batt_table ! i)) (unsigned (snd (batt_table ! i)))
               (fst (batt_table ! (i + 1))) (unsigned (snd (batt_table ! (i + 1))))
            - line_value (18 / 5) (fst (batt_table ! i)) (unsigned (snd (batt_table ! i)))
               (fst (batt_table ! (i + 1))) (unsigned (snd (batt_table ! (i + 1))))\<bar> \<le> 1 / 32768"
    by blast
  then have "fst (batt_table ! 0) \<le> 18 / 5 \<and> 18 / 5 \<le> fst (batt_table ! (0 + 1)) \<longrightarrow>
         percent_of_voltage batt_table (18 / 5)
           = interpolate (18 / 5) (fst (batt_table ! 0)) (snd (batt_table ! 0))
               (fst (batt_table ! (0 + 1))) (snd (batt_table ! (0 + 1)))
         \<and> \<bar>interp_value (18 / 5) (fst (batt_table ! 0)) (unsigned (snd (batt_table ! 0)))
               (fst (batt_table ! (0 + 1))) (unsigned (snd (batt_table ! (0 + 1))))
            - line_value (18 / 5) (fst (batt_table ! 0)) (unsigned (snd (batt_table ! 0)))
               (fst (batt_table ! (0 + 1))) (unsigned (snd (batt_table ! (0 + 1))))\<bar> \<le> 1 / 32768"
    by (simp add: length_batt_table)
  then have "percent_of_voltage batt_table (18 / 5) = 4
     \<and> \<bar>interp_value (18 / 5) (float_lit (327 / 100)) 0 (float_lit (361 / 100)) 5
        - line_value (18 / 5) (float_lit (327 / 100)) 0 (float_lit (361 / 100)) 5\<bar> \<le> 1 / 32768"
    using seg val by (simp add: batt_table_ends a1)
  moreover from c3 le
  have "percent_of_voltage batt_table (18 / 5) \<le> percent_of_voltage batt_table (37 / 10)"
    by blast
  ultimately show ?thesis
    by blast
qed

end
